theory Spec2Isabelle
  imports Main "HOL-Library.Sublist"
begin

section \<open>Python strings\<close>

text \<open>
  A Python \<open>str\<close> is a sequence of Unicode code points, so it is modelled as a list of
  natural numbers (one per code point), not as a list of bytes.  ASCII text is written
  with \<open>cps\<close>; the Korean literals of \<open>app.py\<close> are spelled out by code point.
\<close>

type_synonym pystr = "nat list"

definition cps :: "string \<Rightarrow> pystr" where
  "cps s = map of_char s"

text \<open>The markers and sentinel keywords of \<open>parse_date\<close>.\<close>

definition kw_ijeon :: pystr where  \<comment> \<open>U+C774 U+C804, ijeon: before\<close>
  "kw_ijeon = [0xC774, 0xC804]"

definition kw_haengsa :: pystr where  \<comment> \<open>U+D589 U+C0AC, haengsa: event\<close>
  "kw_haengsa = [0xD589, 0xC0AC]"

definition kw_ojeon :: pystr where  \<comment> \<open>U+C624 U+C804, ojeon: morning\<close>
  "kw_ojeon = [0xC624, 0xC804]"

definition kw_ohu :: pystr where  \<comment> \<open>U+C624 U+D6C4, ohu: afternoon\<close>
  "kw_ohu = [0xC624, 0xD6C4]"

definition sentinels :: "pystr list" where
  \<comment> \<open>the three status words of line 45, by code point\<close>
  "sentinels =
     [[0xC0AC, 0xC804, 0xADDC, 0xACA9],
      [0xACAC, 0xC801, 0xC11C, 0x20, 0xC694, 0xCCAD],
      [0xC2E4, 0xD589, 0xC911]]"

text \<open>
  \<open>str.isspace\<close> for one code point: the characters that \<open>str.strip()\<close> removes and that
  \<open>\\s\<close> matches in a \<open>str\<close> pattern.
\<close>

definition is_space :: "nat \<Rightarrow> bool" where
  "is_space c \<longleftrightarrow>
     (0x09 \<le> c \<and> c \<le> 0x0D) \<or> (0x1C \<le> c \<and> c \<le> 0x20) \<or> c = 0x85 \<or> c = 0xA0 \<or>
     c = 0x1680 \<or> (0x2000 \<le> c \<and> c \<le> 0x200A) \<or> c = 0x2028 \<or> c = 0x2029 \<or>
     c = 0x202F \<or> c = 0x205F \<or> c = 0x3000"

definition strip :: "pystr \<Rightarrow> pystr" where
  "strip s = rev (dropWhile is_space (rev (dropWhile is_space s)))"

text \<open>
  Decimal digits.  In a \<open>str\<close> pattern \<open>\\d\<close> matches every character of the Unicode
  category Nd, and \<open>int()\<close> reads them all.  These characters come in runs of ten, from
  the digit zero to the digit nine of a script; \<open>digit_zeros\<close> lists the zero of every run
  (Unicode 14), the ASCII \<open>0\<close> first.
\<close>

definition digit_zeros :: "nat list" where
  "digit_zeros =
     [0x30, 0x660, 0x6F0, 0x7C0, 0x966, 0x9E6, 0xA66, 0xAE6, 0xB66, 0xBE6, 0xC66, 0xCE6, 0xD66,
      0xDE6, 0xE50, 0xED0, 0xF20, 0x1040, 0x1090, 0x17E0, 0x1810, 0x1946, 0x19D0, 0x1A80,
      0x1A90, 0x1B50, 0x1BB0, 0x1C40, 0x1C50, 0xA620, 0xA8D0, 0xA900, 0xA9D0, 0xA9F0, 0xAA50,
      0xABF0, 0xFF10, 0x104A0, 0x10D30, 0x11066, 0x110F0, 0x11136, 0x111D0, 0x112F0, 0x11450,
      0x114D0, 0x11650, 0x116C0, 0x11730, 0x118E0, 0x11950, 0x11C50, 0x11D50, 0x11DA0,
      0x16A60, 0x16AC0, 0x16B50, 0x1D7CE, 0x1D7D8, 0x1D7E2, 0x1D7EC, 0x1D7F6, 0x1E140,
      0x1E2F0, 0x1E950, 0x1FBF0]"

definition digit_zero :: "nat \<Rightarrow> nat option" where
  \<comment> \<open>the zero of the run that \<open>c\<close> belongs to\<close>
  "digit_zero c = find (\<lambda>z. z \<le> c \<and> c \<le> z + 9) digit_zeros"

definition is_digit :: "nat \<Rightarrow> bool" where
  "is_digit c \<longleftrightarrow> (case digit_zero c of None \<Rightarrow> False | Some z \<Rightarrow> True)"

definition digit_val :: "nat \<Rightarrow> int" where
  "digit_val c = (case digit_zero c of None \<Rightarrow> 0 | Some z \<Rightarrow> int c - int z)"

text \<open>\<open>needle in hay\<close> on two strings: \<open>needle\<close> occurs as a contiguous substring.\<close>

fun contains :: "pystr \<Rightarrow> pystr \<Rightarrow> bool" where
  "contains needle [] \<longleftrightarrow> needle = []"
| "contains needle (c # cs) \<longleftrightarrow> prefix needle (c # cs) \<or> contains needle cs"

text \<open>
  \<open>s.replace(old, '')\<close> for a non-empty \<open>old\<close>: every non-overlapping occurrence, found
  left to right, is removed.
\<close>

fun remove_all :: "pystr \<Rightarrow> pystr \<Rightarrow> pystr" where
  "remove_all old [] = []"
| "remove_all old (c # cs) =
     (if old \<noteq> [] \<and> prefix old (c # cs) then remove_all old (drop (length old - 1) cs)
      else c # remove_all old cs)"

text \<open>\<open>s.replace('.', '-')\<close>: a one-character replacement.\<close>

definition replace_char :: "nat \<Rightarrow> nat \<Rightarrow> pystr \<Rightarrow> pystr" where
  "replace_char a b s = map (\<lambda>c. if c = a then b else c) s"

section \<open>Calendar and timestamps\<close>

text \<open>
  A pandas \<open>Timestamp\<close> is a signed 64-bit count of nanoseconds since 1970-01-01 00:00;
  \<open>NaT\<close> occupies the least 64-bit value, so a timestamp lies strictly above it.  This is
  the range of the nanosecond unit, from 1677-09-21 00:12:43.145224193 to
  2262-04-11 23:47:16.854775807; a date outside it makes \<open>pd.to_datetime\<close> raise
  \<open>OutOfBoundsDatetime\<close>, a subclass of \<open>ValueError\<close>.
\<close>

definition is_leap :: "int \<Rightarrow> bool" where
  "is_leap y \<longleftrightarrow> y mod 4 = 0 \<and> (y mod 100 \<noteq> 0 \<or> y mod 400 = 0)"

definition days_in_month :: "int \<Rightarrow> int \<Rightarrow> int" where
  "days_in_month y m =
     (if m = 2 then (if is_leap y then 29 else 28)
      else if m = 4 \<or> m = 6 \<or> m = 9 \<or> m = 11 then 30 else 31)"

definition days_before_year :: "int \<Rightarrow> int" where
  \<comment> \<open>days from 0001-01-01 to January 1 of year \<open>y\<close>\<close>
  "days_before_year y = 365 * (y - 1) + (y - 1) div 4 - (y - 1) div 100 + (y - 1) div 400"

definition days_before_month :: "int \<Rightarrow> int \<Rightarrow> int" where
  \<comment> \<open>days from January 1 to the first of month \<open>m\<close>, for \<open>m\<close> from 1 to 12\<close>
  "days_before_month y m =
     (if m = 1 then 0 else if m = 2 then 31
      else (if is_leap y then 1 else 0) +
        (if m = 3 then 59 else if m = 4 then 90 else if m = 5 then 120
         else if m = 6 then 151 else if m = 7 then 181 else if m = 8 then 212
         else if m = 9 then 243 else if m = 10 then 273 else if m = 11 then 304 else 334))"

definition days_from_civil :: "int \<Rightarrow> int \<Rightarrow> int \<Rightarrow> int" where
  \<comment> \<open>days since 1970-01-01\<close>
  "days_from_civil y m d =
     days_before_year y - days_before_year 1970 + days_before_month y m + (d - 1)"

definition valid_date :: "int \<Rightarrow> int \<Rightarrow> int \<Rightarrow> bool" where
  "valid_date y m d \<longleftrightarrow> 1 \<le> m \<and> m \<le> 12 \<and> 1 \<le> d \<and> d \<le> days_in_month y m"

definition ns_per_second :: int where "ns_per_second = 1000000000"
definition ns_per_minute :: int where "ns_per_minute = 60 * ns_per_second"
definition ns_per_hour :: int where "ns_per_hour = 60 * ns_per_minute"
definition ns_per_day :: int where "ns_per_day = 24 * ns_per_hour"

definition ts_of_civil :: "int \<Rightarrow> int \<Rightarrow> int \<Rightarrow> int \<Rightarrow> int \<Rightarrow> int \<Rightarrow> int" where
  "ts_of_civil y m d hh mi ss =
     days_from_civil y m d * ns_per_day + hh * ns_per_hour + mi * ns_per_minute
       + ss * ns_per_second"

definition in_bounds :: "int \<Rightarrow> bool" where
  \<comment> \<open>\<open>Timestamp.min.value \<le> v \<le> Timestamp.max.value\<close>\<close>
  "in_bounds v \<longleftrightarrow> - (2 ^ 63) < v \<and> v < 2 ^ 63"

definition hour_of :: "int \<Rightarrow> int" where
  \<comment> \<open>the \<open>.hour\<close> attribute of a timestamp\<close>
  "hour_of v = (v div ns_per_hour) mod 24"

section \<open>The pandas library functions used by \<open>parse_date\<close>\<close>

text \<open>
  \<open>pd.to_datetime\<close>, \<open>Timestamp\<close> arithmetic and \<open>re\<close> are library code.  They are modelled
  here as pandas 2.x and CPython document and implement them: a format is compiled to the
  regular expression of \<open>_strptime.TimeRE\<close>, matched with backtracking from the start of
  the string, and the whole string has to be consumed.  Every failure is an exception of
  class \<open>ValueError\<close> or of one of its subclasses.
\<close>

datatype py_error =
    ValueError
  | DateParseError  \<comment> \<open>subclass of \<open>ValueError\<close>\<close>
  | OutOfBoundsDatetime  \<comment> \<open>subclass of \<open>ValueError\<close>\<close>
  | OverflowError
  | UnboundLocalError

fun is_ValueError :: "py_error \<Rightarrow> bool" where
  "is_ValueError ValueError = True"
| "is_ValueError DateParseError = True"
| "is_ValueError OutOfBoundsDatetime = True"
| "is_ValueError OverflowError = False"
| "is_ValueError UnboundLocalError = False"

datatype tstamp = NaT | Timestamp int

datatype cell = NaN | Str pystr

subsection \<open>Format directives\<close>

datatype directive = DY | Dm | Dd | DH | DI | DM | DS | Dp | Ws | Lit nat

text \<open>
  The tokens of a format string: \<open>%x\<close> is a directive, a run of white space becomes
  \<open>\\s+\<close>, any other character stands for itself.  A directive that the formats of
  \<open>app.py\<close> do not use is rejected.
\<close>

fun tokenize :: "string \<Rightarrow> directive list option" where
  "tokenize [] = Some []"
| "tokenize [c] =
     (if c = CHR ''%'' then None
      else if is_space (of_char c) then Some [Ws] else Some [Lit (of_char c)])"
| "tokenize (c # d # r) =
     (if c = CHR ''%'' then
        (case (if d = CHR ''Y'' then Some DY else if d = CHR ''m'' then Some Dm
               else if d = CHR ''d'' then Some Dd else if d = CHR ''H'' then Some DH
               else if d = CHR ''I'' then Some DI else if d = CHR ''M'' then Some DM
               else if d = CHR ''S'' then Some DS else if d = CHR ''p'' then Some Dp
               else None) of
           None \<Rightarrow> None
         | Some t \<Rightarrow> map_option (\<lambda>ts. t # ts) (tokenize r))
      else if is_space (of_char c) then
        (if is_space (of_char d) then tokenize (d # r)
         else map_option (\<lambda>ts. Ws # ts) (tokenize (d # r)))
      else map_option (\<lambda>ts. Lit (of_char c) # ts) (tokenize (d # r)))"

definition in_range :: "nat \<Rightarrow> nat \<Rightarrow> nat \<Rightarrow> bool" where
  "in_range lo hi c \<longleftrightarrow> lo \<le> c \<and> c \<le> hi"

definition two_chars :: "(nat \<Rightarrow> bool) \<Rightarrow> (nat \<Rightarrow> bool) \<Rightarrow> pystr \<Rightarrow> (int \<times> pystr) list" where
  "two_chars p q s =
     (case s of
        a # b # r \<Rightarrow> if p a \<and> q b then [(10 * digit_val a + digit_val b, r)] else []
      | _ \<Rightarrow> [])"

definition one_char :: "(nat \<Rightarrow> bool) \<Rightarrow> pystr \<Rightarrow> (int \<times> pystr) list" where
  "one_char p s = (case s of a # r \<Rightarrow> if p a then [(digit_val a, r)] else [] | _ \<Rightarrow> [])"

definition four_digits :: "pystr \<Rightarrow> (int \<times> pystr) list" where
  "four_digits s =
     (case s of
        a # b # c # d # r \<Rightarrow>
          if is_digit a \<and> is_digit b \<and> is_digit c \<and> is_digit d
          then [(1000 * digit_val a + 100 * digit_val b + 10 * digit_val c + digit_val d, r)]
          else []
      | _ \<Rightarrow> [])"

text \<open>\<open>\\s+\<close> is greedy: the longest run first, then shorter ones, never the empty one.\<close>

fun spaces :: "pystr \<Rightarrow> pystr list" where
  "spaces [] = []"
| "spaces (c # cs) = (if is_space c then spaces cs @ [cs] else [])"

text \<open>
  The alternatives of one directive at the head of \<open>s\<close>, in the order the regular
  expression tries them, each with the value read and the rest of the string:
  \<open>%m\<close> and \<open>%I\<close> are \<open>1[0-2]|0[1-9]|[1-9]\<close>, \<open>%d\<close> is \<open>3[0-1]|[1-2]\\d|0[1-9]|[1-9]| [1-9]\<close>,
  \<open>%H\<close> is \<open>2[0-3]|[0-1]\\d|\\d\<close>, \<open>%M\<close> is \<open>[0-5]\\d|\\d\<close>, \<open>%S\<close> is \<open>6[0-1]|[0-5]\\d|\\d\<close>,
  \<open>%Y\<close> is \<open>\\d\\d\\d\\d\<close> and \<open>%p\<close> is \<open>am|pm\<close> without regard to case (value 0 for am, 1
  for pm).
\<close>

fun alts :: "directive \<Rightarrow> pystr \<Rightarrow> (int \<times> pystr) list" where
  "alts DY s = four_digits s"
| "alts Dm s =
     two_chars (\<lambda>c. c = 49) (in_range 48 50) s @ two_chars (\<lambda>c. c = 48) (in_range 49 57) s
       @ one_char (in_range 49 57) s"
| "alts Dd s =
     two_chars (\<lambda>c. c = 51) (in_range 48 49) s @ two_chars (in_range 49 50) is_digit s
       @ two_chars (\<lambda>c. c = 48) (in_range 49 57) s @ one_char (in_range 49 57) s
       @ (case s of a # r \<Rightarrow> if a = 32 then one_char (in_range 49 57) r else [] | _ \<Rightarrow> [])"
| "alts DH s =
     two_chars (\<lambda>c. c = 50) (in_range 48 51) s @ two_chars (in_range 48 49) is_digit s
       @ one_char is_digit s"
| "alts DI s =
     two_chars (\<lambda>c. c = 49) (in_range 48 50) s @ two_chars (\<lambda>c. c = 48) (in_range 49 57) s
       @ one_char (in_range 49 57) s"
| "alts DM s = two_chars (in_range 48 53) is_digit s @ one_char is_digit s"
| "alts DS s =
     two_chars (\<lambda>c. c = 54) (in_range 48 49) s @ two_chars (in_range 48 53) is_digit s
       @ one_char is_digit s"
| "alts Dp s =
     (case s of
        a # b # r \<Rightarrow>
          if (a = 97 \<or> a = 65) \<and> (b = 109 \<or> b = 77) then [(0, r)]
          else if (a = 112 \<or> a = 80) \<and> (b = 109 \<or> b = 77) then [(1, r)]
          else []
      | _ \<Rightarrow> [])"
| "alts Ws s = map (\<lambda>r. (0, r)) (spaces s)"
| "alts (Lit c) s = (case s of a # r \<Rightarrow> if a = c then [(0, r)] else [] | _ \<Rightarrow> [])"

text \<open>The named groups of a match; \<open>None\<close> where the format has no such directive.\<close>

record captures =
  cap_Y :: "int option"
  cap_m :: "int option"
  cap_d :: "int option"
  cap_H :: "int option"
  cap_I :: "int option"
  cap_M :: "int option"
  cap_S :: "int option"
  cap_p :: "int option"

definition no_captures :: captures where
  "no_captures =
     \<lparr>cap_Y = None, cap_m = None, cap_d = None, cap_H = None, cap_I = None, cap_M = None,
      cap_S = None, cap_p = None\<rparr>"

fun capture :: "directive \<Rightarrow> int \<Rightarrow> captures \<Rightarrow> captures" where
  "capture DY v c = c\<lparr>cap_Y := Some v\<rparr>"
| "capture Dm v c = c\<lparr>cap_m := Some v\<rparr>"
| "capture Dd v c = c\<lparr>cap_d := Some v\<rparr>"
| "capture DH v c = c\<lparr>cap_H := Some v\<rparr>"
| "capture DI v c = c\<lparr>cap_I := Some v\<rparr>"
| "capture DM v c = c\<lparr>cap_M := Some v\<rparr>"
| "capture DS v c = c\<lparr>cap_S := Some v\<rparr>"
| "capture Dp v c = c\<lparr>cap_p := Some v\<rparr>"
| "capture Ws v c = c"
| "capture (Lit x) v c = c"

text \<open>
  All the ways the compiled format matches a prefix of \<open>s\<close>, in backtracking order;
  \<open>re.match\<close> returns the first.
\<close>

fun fmt_matches :: "directive list \<Rightarrow> captures \<Rightarrow> pystr \<Rightarrow> (captures \<times> pystr) list" where
  "fmt_matches [] c s = [(c, s)]"
| "fmt_matches (t # ts) c s =
     concat (map (\<lambda>(v, r). fmt_matches ts (capture t v c) r) (alts t s))"

subsection \<open>\<open>pd.to_datetime\<close>\<close>

text \<open>
  The date and time that the groups of a match denote.  Missing groups take the defaults
  of \<open>strptime\<close> (year 1900, month 1, day 1, time 00:00:00).  An hour read by \<open>%I\<close> is a
  12-hour value: with no \<open>%p\<close> group, or with \<open>am\<close>, hour 12 is midnight; with \<open>pm\<close>, 12 is
  added unless the hour is 12.  A date that is not on the calendar is a \<open>ValueError\<close>; a
  date outside the range of a \<open>Timestamp\<close> is an \<open>OutOfBoundsDatetime\<close>.  The seconds 60
  and 61, which \<open>%S\<close> admits, run over into the next minute.
\<close>

definition hour_12 :: "int \<Rightarrow> int option \<Rightarrow> int" where
  "hour_12 h ampm =
     (if ampm = None \<or> ampm = Some 0 then (if h = 12 then 0 else h)
      else (if h \<noteq> 12 then h + 12 else h))"

definition make_timestamp :: "int \<Rightarrow> int \<Rightarrow> int \<Rightarrow> int \<Rightarrow> int \<Rightarrow> int \<Rightarrow> py_error + tstamp" where
  "make_timestamp y m d hh mi ss =
     (if 1 \<le> y \<and> valid_date y m d then
        (if in_bounds (ts_of_civil y m d hh mi ss)
         then Inr (Timestamp (ts_of_civil y m d hh mi ss))
         else Inl OutOfBoundsDatetime)
      else Inl ValueError)"

definition timestamp_of_captures :: "captures \<Rightarrow> py_error + tstamp" where
  "timestamp_of_captures c =
     make_timestamp
       (case cap_Y c of None \<Rightarrow> 1900 | Some y \<Rightarrow> y)
       (case cap_m c of None \<Rightarrow> 1 | Some m \<Rightarrow> m)
       (case cap_d c of None \<Rightarrow> 1 | Some d \<Rightarrow> d)
       (case cap_I c of
          Some h \<Rightarrow> hour_12 h (cap_p c)
        | None \<Rightarrow> (case cap_H c of None \<Rightarrow> 0 | Some h \<Rightarrow> h))
       (case cap_M c of None \<Rightarrow> 0 | Some mi \<Rightarrow> mi)
       (case cap_S c of None \<Rightarrow> 0 | Some ss \<Rightarrow> ss)"

definition nat_strings :: "pystr list" where
  "nat_strings = map cps [''NaT'', ''nat'', ''NAT'', ''nan'', ''NaN'', ''NAN'']"

text \<open>
  \<open>pd.to_datetime(s, format=fmt)\<close> on one string.  The empty string and the spellings
  of a missing value give \<open>NaT\<close>; \<open>'now'\<close> and \<open>'today'\<close> give the reading \<open>now\<close> of the
  clock, unless the format itself matches; otherwise the first match of the compiled
  format decides, and characters left over after it are an error.
\<close>

definition to_datetime_format :: "int \<Rightarrow> string \<Rightarrow> pystr \<Rightarrow> py_error + tstamp" where
  "to_datetime_format now fmt s =
     (if s = [] \<or> s \<in> set nat_strings then Inr NaT
      else if s = cps ''now'' \<or> s = cps ''today'' then Inr (Timestamp now)
      else
        (case tokenize fmt of
           None \<Rightarrow> Inl ValueError
         | Some ts \<Rightarrow>
             (case fmt_matches ts no_captures s of
                [] \<Rightarrow> Inl ValueError
              | (c, r) # _ \<Rightarrow> if r \<noteq> [] then Inl ValueError else timestamp_of_captures c)))"

text \<open>
  \<open>pd.to_datetime(s)\<close> without a format.  \<open>parse_date\<close> calls it only on the text that
  \<open>\\d{4}-\\d{2}-\\d{2}\<close> matched (or \<open>\\d{4}\\.\\d{2}\\.\\d{2}\<close> with the dots replaced), so
  only that shape is modelled: year, month and day are read from their fixed positions,
  in the digits of whatever script the pattern let through, and a month or day that is
  not on the calendar is a \<open>DateParseError\<close>.
\<close>

definition to_datetime :: "pystr \<Rightarrow> py_error + tstamp" where
  "to_datetime s =
     (case s of
        [y1, y2, y3, y4, a, m1, m2, b, d1, d2] \<Rightarrow>
          if list_all is_digit [y1, y2, y3, y4, m1, m2, d1, d2] \<and> a = 45 \<and> b = 45 then
            (let y = 1000 * digit_val y1 + 100 * digit_val y2 + 10 * digit_val y3 + digit_val y4;
                 m = 10 * digit_val m1 + digit_val m2;
                 d = 10 * digit_val d1 + digit_val d2
             in if 1 \<le> y \<and> valid_date y m d then
                  (if in_bounds (ts_of_civil y m d 0 0 0)
                   then Inr (Timestamp (ts_of_civil y m d 0 0 0))
                   else Inl OutOfBoundsDatetime)
                else Inl DateParseError)
          else Inl DateParseError
      | _ \<Rightarrow> Inl DateParseError)"

text \<open>
  \<open>dt + timedelta\<close> with the offset in nanoseconds: \<open>NaT\<close> stays \<open>NaT\<close>, and a result
  outside the range of a \<open>Timestamp\<close> raises.
\<close>

definition add_timedelta :: "tstamp \<Rightarrow> int \<Rightarrow> py_error + tstamp" where
  "add_timedelta dt delta =
     (case dt of
        NaT \<Rightarrow> Inr NaT
      | Timestamp v \<Rightarrow>
          if in_bounds (v + delta) then Inr (Timestamp (v + delta)) else Inl OutOfBoundsDatetime)"

text \<open>\<open>dt.hour == 12\<close>; the hour of \<open>NaT\<close> is \<open>nan\<close>, which equals nothing.\<close>

definition hour_is_12 :: "tstamp \<Rightarrow> bool" where
  "hour_is_12 dt = (case dt of NaT \<Rightarrow> False | Timestamp v \<Rightarrow> hour_of v = 12)"

subsection \<open>The regular expressions of \<open>parse_date\<close>\<close>

text \<open>
  \<open>re.search\<close>: the leftmost position where the pattern matches; \<open>p\<close> matches a pattern
  at the head of a string and returns the matched text.
\<close>

fun re_search :: "(pystr \<Rightarrow> pystr option) \<Rightarrow> pystr \<Rightarrow> pystr option" where
  "re_search p [] = p []"
| "re_search p (c # cs) = (case p (c # cs) of Some g \<Rightarrow> Some g | None \<Rightarrow> re_search p cs)"

definition date_pattern :: "nat \<Rightarrow> pystr \<Rightarrow> pystr option" where
  \<comment> \<open>\<open>\\d{4}-\\d{2}-\\d{2}\<close> for \<open>sep = 45\<close>, \<open>\\d{4}\\.\\d{2}\\.\\d{2}\<close> for \<open>sep = 46\<close>\<close>
  "date_pattern sep s =
     (case s of
        y1 # y2 # y3 # y4 # a # m1 # m2 # b # d1 # d2 # _ \<Rightarrow>
          if list_all is_digit [y1, y2, y3, y4, m1, m2, d1, d2] \<and> a = sep \<and> b = sep
          then Some (take 10 s) else None
      | _ \<Rightarrow> None)"

definition am_pm_pattern :: "pystr \<Rightarrow> pystr option" where
  \<comment> \<open>the pattern of line 58: \<open>kw_ojeon\<close> or \<open>kw_ohu\<close>\<close>
  "am_pm_pattern s =
     (if prefix kw_ojeon s then Some kw_ojeon
      else if prefix kw_ohu s then Some kw_ohu else None)"

definition year_only :: "pystr \<Rightarrow> bool" where
  \<comment> \<open>\<open>re.match(r'^\\d{4}$', s)\<close>; \<open>$\<close> also matches before a final newline\<close>
  "year_only s \<longleftrightarrow>
     (case s of
        [a, b, c, d] \<Rightarrow> list_all is_digit [a, b, c, d]
      | [a, b, c, d, n] \<Rightarrow> list_all is_digit [a, b, c, d] \<and> n = 10
      | _ \<Rightarrow> False)"

definition year_month :: "pystr \<Rightarrow> bool" where
  \<comment> \<open>\<open>re.match(r'^\\d{4}\\.\\d{2}$', s)\<close>\<close>
  "year_month s \<longleftrightarrow>
     (case s of
        [a, b, c, d, p, e, f] \<Rightarrow> list_all is_digit [a, b, c, d, e, f] \<and> p = 46
      | [a, b, c, d, p, e, f, n] \<Rightarrow> list_all is_digit [a, b, c, d, e, f] \<and> p = 46 \<and> n = 10
      | _ \<Rightarrow> False)"

section \<open>\<open>parse_date\<close>\<close>

definition date_formats :: "string list" where
  "date_formats =
     [''%Y-%m-%d'',
      ''%Y.%m.%d'',
      ''%Y-%m-%d %H:%M'',
      ''%Y.%m.%d %H:%M'',
      ''%Y-%m-%d %p %I:%M'',
      ''%Y.%m.%d %p %I:%M'',
      ''%Y-%m-%d %H:%M:%S'',
      ''%Y.%m.%d %H:%M:%S'',
      ''%Y. %m. %d. %H:%M'',
      ''%Y.%m.%d %H:%M'',
      ''%Y.%m.%d.%H'']"

text \<open>
  Lines 95 to 101: the loop over the formats returns at the first one that parses; a
  \<open>ValueError\<close> moves on to the next format, any other exception leaves the loop.
\<close>

fun try_formats :: "int \<Rightarrow> string list \<Rightarrow> pystr \<Rightarrow> py_error + tstamp" where
  "try_formats now [] s = Inr NaT"
| "try_formats now (fmt # fmts) s =
     (case to_datetime_format now fmt s of
        Inr dt \<Rightarrow> Inr dt
      | Inl e \<Rightarrow> if is_ValueError e then try_formats now fmts s else Inl e)"

text \<open>
  Lines 75 to 101, the part of \<open>parse_date\<close> after the morning/afternoon block: a bare
  year, a bare year and month, then the list of formats.  The two calls of
  \<open>pd.to_datetime\<close> at lines 76 and 79 stand outside any \<open>try\<close>.
\<close>

definition parse_plain :: "int \<Rightarrow> pystr \<Rightarrow> py_error + tstamp" where
  "parse_plain now date_str =
     (if year_only date_str then to_datetime_format now ''%Y'' date_str
      else if year_month date_str then to_datetime_format now ''%Y.%m'' date_str
      else try_formats now date_formats date_str)"

text \<open>
  Lines 62 to 71, the body of the \<open>try\<close>: both branches parse with the 12-hour format
  and then correct the hour.
\<close>

definition parse_am_pm :: "int \<Rightarrow> pystr \<Rightarrow> pystr \<Rightarrow> py_error + tstamp" where
  "parse_am_pm now am_pm date_str =
     (if am_pm = kw_ojeon then
        (case to_datetime_format now ''%Y.%m.%d %I:%M'' date_str of
           Inl e \<Rightarrow> Inl e
         | Inr dt \<Rightarrow> if hour_is_12 dt then add_timedelta dt (- (12 * ns_per_hour)) else Inr dt)
      else if am_pm = kw_ohu then
        (case to_datetime_format now ''%Y.%m.%d %I:%M'' date_str of
           Inl e \<Rightarrow> Inl e
         | Inr dt \<Rightarrow> if \<not> hour_is_12 dt then add_timedelta dt (12 * ns_per_hour) else Inr dt)
      else Inl UnboundLocalError)"

text \<open>
  \<open>parse_date\<close>, lines 38 to 101.  \<open>now\<close> is the reading of the clock, which
  \<open>pd.to_datetime\<close> consults for the strings \<open>'now'\<close> and \<open>'today'\<close>.  The result is
  \<open>Inl e\<close> when the exception \<open>e\<close> leaves the function.
\<close>

definition parse_date :: "int \<Rightarrow> cell \<Rightarrow> py_error + tstamp" where
  "parse_date now date_cell =
     (case date_cell of
        NaN \<Rightarrow> Inr NaT
      | Str raw \<Rightarrow>
          (let date_str = strip raw in
           if date_str \<in> set sentinels then Inr NaT
           else
             (case (if contains kw_ijeon date_str then re_search (date_pattern 45) date_str
                    else None) of
                Some date_part \<Rightarrow>
                  (case to_datetime date_part of
                     Inl e \<Rightarrow> Inl e
                   | Inr dt \<Rightarrow> add_timedelta dt (- ns_per_day))
              | None \<Rightarrow>
                  (case (if contains kw_haengsa date_str
                         then re_search (date_pattern 46) date_str else None) of
                     Some date_part \<Rightarrow> to_datetime (replace_char 46 45 date_part)
                   | None \<Rightarrow>
                       (case re_search am_pm_pattern date_str of
                          Some am_pm \<Rightarrow>
                            (let date_str' = strip (remove_all am_pm date_str) in
                             case parse_am_pm now am_pm date_str' of
                               Inr dt \<Rightarrow> Inr dt
                             | Inl e \<Rightarrow>
                                 if is_ValueError e then parse_plain now date_str' else Inl e)
                        | None \<Rightarrow> parse_plain now date_str)))))"

section \<open>The rest of the pipeline\<close>

subsection \<open>\<open>find_column\<close>\<close>

text \<open>
  A column label is a cell of the header row: a string, or \<open>nan\<close> where the header cell
  was empty; \<open>str(col)\<close> of the latter is \<open>'nan'\<close>.
\<close>

definition str_of :: "cell \<Rightarrow> pystr" where
  "str_of col = (case col of NaN \<Rightarrow> cps ''nan'' | Str s \<Rightarrow> s)"

text \<open>
  \<open>find_column\<close>, lines 103 to 107.  \<open>str.lower\<close> is the Unicode lower-case mapping of
  the Python runtime; it is the parameter \<open>lower\<close>.
\<close>

fun find_column :: "(pystr \<Rightarrow> pystr) \<Rightarrow> cell list \<Rightarrow> pystr list \<Rightarrow> cell option" where
  "find_column lower [] keywords = None"
| "find_column lower (col # cols) keywords =
     (if list_ex (\<lambda>keyword. contains (lower keyword) (lower (str_of col))) keywords
      then Some col else find_column lower cols keywords)"

subsection \<open>Start dates\<close>

record row =
  name :: cell
  end_date :: cell
  manager :: cell

record resolved_row =
  r_name :: cell
  r_start :: tstamp
  r_end :: tstamp
  r_manager :: pystr

text \<open>Line 130: \<open>parse_date\<close> on the end-date cell of every row; an exception ends the pass.\<close>

fun apply_parse_date :: "int \<Rightarrow> row list \<Rightarrow> py_error + (row \<times> tstamp) list" where
  "apply_parse_date now [] = Inr []"
| "apply_parse_date now (r # rs) =
     (case parse_date now (end_date r) of
        Inl e \<Rightarrow> Inl e
      | Inr dt \<Rightarrow>
          (case apply_parse_date now rs of Inl e \<Rightarrow> Inl e | Inr ps \<Rightarrow> Inr ((r, dt) # ps)))"

text \<open>
  Line 131: the column of end dates minus \<open>timedelta(days=14)\<close>.  The subtraction on a
  whole column raises \<open>OverflowError\<close> when one result leaves the 64-bit range.
\<close>

fun minus_14_days :: "(row \<times> tstamp) list \<Rightarrow> py_error + (row \<times> tstamp \<times> tstamp) list" where
  "minus_14_days [] = Inr []"
| "minus_14_days ((r, dt) # ps) =
     (case (case dt of
              NaT \<Rightarrow> Inr NaT
            | Timestamp v \<Rightarrow>
                if in_bounds (v - 14 * ns_per_day) then Inr (Timestamp (v - 14 * ns_per_day))
                else Inl OverflowError) of
        Inl e \<Rightarrow> Inl e
      | Inr st \<Rightarrow>
          (case minus_14_days ps of Inl e \<Rightarrow> Inl e | Inr qs \<Rightarrow> Inr ((r, st, dt) # qs)))"

text \<open>Lines 129 to 133 together; a missing manager becomes \<open>'Unknown'\<close>.\<close>

definition derive_dates :: "int \<Rightarrow> row list \<Rightarrow> py_error + resolved_row list" where
  "derive_dates now rows =
     (case apply_parse_date now (filter (\<lambda>r. name r \<noteq> NaN \<and> end_date r \<noteq> NaN) rows) of
        Inl e \<Rightarrow> Inl e
      | Inr ps \<Rightarrow>
          (case minus_14_days ps of
             Inl e \<Rightarrow> Inl e
           | Inr qs \<Rightarrow>
               Inr (map (\<lambda>(r, st, dt).
                          \<lparr>r_name = name r, r_start = st, r_end = dt,
                           r_manager = (case manager r of NaN \<Rightarrow> cps ''Unknown'' | Str s \<Rightarrow> s)\<rparr>)
                      (filter (\<lambda>(r, st, dt). st \<noteq> NaT \<and> dt \<noteq> NaT) qs))))"

subsection \<open>The D-day annotation\<close>

text \<open>\<open>str(n)\<close> for an integer: its decimal digits, with a sign when negative.\<close>

fun str_nat :: "nat \<Rightarrow> pystr" where
  "str_nat n = (if n < 10 then [48 + n] else str_nat (n div 10) @ [48 + n mod 10])"

declare str_nat.simps [simp del]

definition str_int :: "int \<Rightarrow> pystr" where
  "str_int i = (if i < 0 then 45 # str_nat (nat (- i)) else str_nat (nat i))"

text \<open>
  Lines 150 and 151, with the end date and \<open>datetime.now()\<close> in nanoseconds.  The \<open>days\<close>
  attribute of the difference is its quotient by one day, rounded towards minus
  infinity.
\<close>

definition d_day_text :: "int \<Rightarrow> int \<Rightarrow> pystr" where
  "d_day_text end_ts now =
     (let d_day = (end_ts - now) div ns_per_day
      in if d_day \<ge> 0 then cps ''D-'' @ str_int d_day else cps ''D+'' @ str_int (- d_day))"

subsection \<open>\<open>strftime('%Y-%m-%d')\<close> and its dotted variant\<close>

definition digit_char :: "int \<Rightarrow> nat" where
  "digit_char k = nat (48 + k)"

definition pad2 :: "int \<Rightarrow> pystr" where
  "pad2 n = [digit_char (n div 10), digit_char (n mod 10)]"

definition pad4 :: "int \<Rightarrow> pystr" where
  "pad4 n =
     [digit_char (n div 1000), digit_char (n div 100 mod 10), digit_char (n div 10 mod 10),
      digit_char (n mod 10)]"

definition date_text :: "nat \<Rightarrow> int \<Rightarrow> int \<Rightarrow> int \<Rightarrow> pystr" where
  \<comment> \<open>\<open>YYYY-MM-DD\<close> for \<open>sep = 45\<close>, \<open>YYYY.MM.DD\<close> for \<open>sep = 46\<close>\<close>
  "date_text sep y m d = pad4 y @ [sep] @ pad2 m @ [sep] @ pad2 d"

text \<open>The calendar day before a date.\<close>

definition prev_day :: "int \<times> int \<times> int \<Rightarrow> int \<times> int \<times> int" where
  "prev_day ymd =
     (case ymd of
        (y, m, d) \<Rightarrow>
          if 1 < d then (y, m, d - 1)
          else if 1 < m then (y, m - 1, days_in_month y (m - 1))
          else (y - 1, 12, 31))"

text \<open>Text made of ASCII characters only, such as the text of a date.\<close>

definition ascii :: "pystr \<Rightarrow> bool" where
  "ascii s \<longleftrightarrow> list_all (\<lambda>c. c < 128) s"

text \<open>
  The characters that a directive or a literal of a format can match: digits, white
  space, the letters of \<open>am\<close> and \<open>pm\<close>, and the characters of the format strings, which
  all lie below 256.
\<close>

definition plain :: "nat \<Rightarrow> bool" where
  "plain c \<longleftrightarrow> is_digit c \<or> is_space c \<or> c < 256"

text \<open>The first element of a list of matches.\<close>

definition first_is :: "'a list \<Rightarrow> 'a \<Rightarrow> bool" where
  "first_is xs x \<longleftrightarrow> (case xs of [] \<Rightarrow> False | y # _ \<Rightarrow> y = x)"

section \<open>Digits\<close>

lemma digit_zero_ascii: "48 \<le> c \<Longrightarrow> c \<le> 57 \<Longrightarrow> digit_zero c = Some 48"
  by (simp add: digit_zero_def digit_zeros_def)

lemma digit_zero_none:
  "list_all (\<lambda>z. c < z \<or> z + 9 < c) digit_zeros \<Longrightarrow> digit_zero c = None"
  by (auto simp: digit_zero_def find_None_iff list_all_iff)

lemma digit_zeros_above_ascii: "list_all (\<lambda>z. 128 \<le> z) (tl digit_zeros)" "hd digit_zeros = 48"
  by (simp_all add: digit_zeros_def)

lemma is_digit_ascii: "c < 128 \<Longrightarrow> is_digit c \<longleftrightarrow> 48 \<le> c \<and> c \<le> 57"
proof (cases "48 \<le> c \<and> c \<le> 57")
  case True
  then show ?thesis by (simp add: is_digit_def digit_zero_ascii)
next
  case False
  assume "c < 128"
  with False have "list_all (\<lambda>z. c < z \<or> z + 9 < c) digit_zeros"
    by (simp add: digit_zeros_def) linarith
  then have "digit_zero c = None" by (rule digit_zero_none)
  with False show ?thesis by (simp add: is_digit_def)
qed

lemma digit_val_ascii: "48 \<le> c \<Longrightarrow> c \<le> 57 \<Longrightarrow> digit_val c = int c - 48"
  by (simp add: digit_val_def digit_zero_ascii)

lemma not_digit_hangul: "0xAC00 \<le> c \<Longrightarrow> c \<le> 0xD7A3 \<Longrightarrow> \<not> is_digit c"
proof -
  assume "0xAC00 \<le> c" "c \<le> 0xD7A3"
  then have "list_all (\<lambda>z. c < z \<or> z + 9 < c) digit_zeros"
    by (simp add: digit_zeros_def)
  then have "digit_zero c = None" by (rule digit_zero_none)
  then show ?thesis by (simp add: is_digit_def)
qed

section \<open>Evaluation on concrete cells\<close>

lemmas string_defs =
  cps_def strip_def is_space_def sentinels_def kw_ijeon_def kw_haengsa_def kw_ojeon_def
  kw_ohu_def am_pm_pattern_def date_pattern_def year_only_def year_month_def is_digit_ascii not_digit_hangul
  digit_val_ascii replace_char_def nat_strings_def

lemmas match_defs =
  four_digits_def two_chars_def one_char_def in_range_def no_captures_def

lemmas calendar_defs =
  timestamp_of_captures_def make_timestamp_def hour_12_def valid_date_def days_in_month_def
  is_leap_def ts_of_civil_def days_from_civil_def days_before_year_def days_before_month_def
  ns_per_day_def ns_per_hour_def ns_per_minute_def ns_per_second_def in_bounds_def
  hour_is_12_def hour_of_def add_timedelta_def

section \<open>Totality of \<open>parse_date\<close>\<close>

text \<open>
  Claim C1 says that \<open>parse_date\<close> never raises.  The cell \<open>2024.13\<close> passes the test
  \<open>^\\d{4}\\.\\d{2}$\<close> of line 78, and the call of \<open>pd.to_datetime\<close> with the format \<open>%Y.%m\<close>
  at line 79, which no \<open>try\<close> encloses, raises \<open>ValueError\<close>: the month group takes the
  \<open>1\<close> and the \<open>3\<close> remains unconverted.  The exception leaves the function.
\<close>

theorem parse_date_2024_13_raises:
  "parse_date now (Str (cps ''2024.13'')) = Inl ValueError"
  by (simp add: parse_date_def parse_plain_def to_datetime_format_def string_defs match_defs)

section \<open>The D-day annotation\<close>

lemma str_nat_digit: "n < 10 \<Longrightarrow> str_nat n = [48 + n]"
  by (simp add: str_nat.simps)

text \<open>
  Claim C7 says that an end date that is today or later is annotated \<open>D-n\<close>, a past one
  \<open>D+n\<close>, with \<open>n\<close> the number of days between the two.  Line 150 subtracts
  \<open>datetime.now()\<close>, time of day included, and takes the floor in days: at ten in the
  morning of 2024-03-15 an end date of that same day is annotated \<open>D+1\<close>, and the end date
  2024-03-16, one day ahead, is annotated \<open>D-0\<close>.
\<close>

theorem d_day_text_off_by_one:
  "d_day_text (ts_of_civil 2024 3 15 0 0 0) (ts_of_civil 2024 3 15 10 0 0) = cps ''D+1'' \<and>
   d_day_text (ts_of_civil 2024 3 16 0 0 0) (ts_of_civil 2024 3 15 10 0 0) = cps ''D-0''"
  by (simp add: d_day_text_def str_int_def str_nat_digit cps_def calendar_defs)

section \<open>\<open>find_column\<close>\<close>

lemma find_column_None_iff:
  "find_column lower cols kws = None \<longleftrightarrow>
   (\<forall>c \<in> set cols. \<forall>k \<in> set kws. \<not> contains (lower k) (lower (str_of c)))"
  by (induction cols) (auto simp: list_ex_iff)

lemma find_column_Some_first:
  "find_column lower cols kws = Some c \<Longrightarrow>
   \<exists>i < length cols. cols ! i = c \<and>
     (\<exists>k \<in> set kws. contains (lower k) (lower (str_of c))) \<and>
     (\<forall>j < i. \<forall>k \<in> set kws. \<not> contains (lower k) (lower (str_of (cols ! j))))"
proof (induction cols)
  case Nil
  then show ?case by simp
next
  case (Cons col cols)
  show ?case
  proof (cases "list_ex (\<lambda>keyword. contains (lower keyword) (lower (str_of col))) kws")
    case True
    with Cons.prems have "c = col" by simp
    with True have "0 < length (col # cols) \<and> (col # cols) ! 0 = c \<and>
      (\<exists>k \<in> set kws. contains (lower k) (lower (str_of c)))"
      by (auto simp: list_ex_iff)
    then show ?thesis by (intro exI [of _ 0]) simp
  next
    case False
    with Cons.prems have "find_column lower cols kws = Some c" by simp
    from Cons.IH [OF this] obtain i where i: "i < length cols" "cols ! i = c"
      "\<exists>k \<in> set kws. contains (lower k) (lower (str_of c))"
      "\<forall>j < i. \<forall>k \<in> set kws. \<not> contains (lower k) (lower (str_of (cols ! j)))"
      by blast
    have "\<forall>j < Suc i. \<forall>k \<in> set kws. \<not> contains (lower k) (lower (str_of ((col # cols) ! j)))"
    proof (intro allI impI)
      fix j assume "j < Suc i"
      show "\<forall>k \<in> set kws. \<not> contains (lower k) (lower (str_of ((col # cols) ! j)))"
      proof (cases j)
        case 0
        with False show ?thesis by (simp add: list_ex_iff)
      next
        case (Suc j')
        with \<open>j < Suc i\<close> i(4) show ?thesis by simp
      qed
    qed
    with i show ?thesis by (intro exI [of _ "Suc i"]) simp
  qed
qed

text \<open>
  Claim C9: \<open>find_column\<close> returns \<open>None\<close> exactly when no column name contains a keyword
  (both in lower case), and a column it returns stands at the first position of the
  sequence whose name contains a keyword: every column before it contains none.
\<close>

theorem find_column_first_hit:
  "(find_column lower cols kws = None \<longleftrightarrow>
      (\<forall>c \<in> set cols. \<forall>k \<in> set kws. \<not> contains (lower k) (lower (str_of c)))) \<and>
   (\<forall>c. find_column lower cols kws = Some c \<longrightarrow>
      (\<exists>i < length cols. cols ! i = c \<and>
         (\<exists>k \<in> set kws. contains (lower k) (lower (str_of c))) \<and>
         (\<forall>j < i. \<forall>k \<in> set kws. \<not> contains (lower k) (lower (str_of (cols ! j))))))"
  using find_column_None_iff [of lower cols kws] find_column_Some_first [of lower cols kws]
  by blast

text \<open>
  The two examples of the specification: the columns U+C0AC U+C5C5 U+BA85 (project name)
  and U+B2F4 U+B2F9 U+C790 (manager), searched for the first name and for \<open>nonexistent\<close>.
\<close>

theorem find_column_first_hit_witness:
  "find_column (\<lambda>s. s) [Str [0xC0AC, 0xC5C5, 0xBA85], Str [0xB2F4, 0xB2F9, 0xC790]]
     [[0xC0AC, 0xC5C5, 0xBA85]] = Some (Str [0xC0AC, 0xC5C5, 0xBA85]) \<and>
   find_column (\<lambda>s. s) [Str [0xC0AC, 0xC5C5, 0xBA85], Str [0xB2F4, 0xB2F9, 0xC790]]
     [cps ''nonexistent''] = None"
  using
    find_column_first_hit [of "\<lambda>s. s" "[Str [0xC0AC, 0xC5C5, 0xBA85], Str [0xB2F4, 0xB2F9, 0xC790]]"
      "[[0xC0AC, 0xC5C5, 0xBA85]]"]
    find_column_first_hit [of "\<lambda>s. s" "[Str [0xC0AC, 0xC5C5, 0xBA85], Str [0xB2F4, 0xB2F9, 0xC790]]"
      "[cps ''nonexistent'']"]
  by (simp add: str_of_def cps_def)

section \<open>A morning or afternoon marker whose remainder does not parse\<close>

lemma re_search_am_pm_cases:
  "re_search am_pm_pattern s = Some m \<Longrightarrow> m = kw_ojeon \<or> m = kw_ohu"
  by (induction s) (auto simp: am_pm_pattern_def split: if_splits option.splits)

lemma make_timestamp_error:
  "make_timestamp y m d hh mi ss = Inl e \<Longrightarrow> is_ValueError e"
  by (auto simp: make_timestamp_def split: if_splits)

lemma to_datetime_format_error:
  "to_datetime_format now fmt s = Inl e \<Longrightarrow> is_ValueError e"
  by (auto simp: to_datetime_format_def timestamp_of_captures_def
      split: if_splits option.splits list.splits prod.splits dest: make_timestamp_error)

lemma parse_am_pm_format_error:
  assumes "m = kw_ojeon \<or> m = kw_ohu"
    and "to_datetime_format now ''%Y.%m.%d %I:%M'' s = Inl e"
  shows "parse_am_pm now m s = Inl e"
  using assms by (auto simp: parse_am_pm_def)

lemma parse_date_after_am_pm_failure:
  assumes "strip raw \<notin> set sentinels"
    and "\<not> contains kw_ijeon (strip raw) \<or> re_search (date_pattern 45) (strip raw) = None"
    and "\<not> contains kw_haengsa (strip raw) \<or> re_search (date_pattern 46) (strip raw) = None"
    and "re_search am_pm_pattern (strip raw) = Some am_pm"
    and "parse_am_pm now am_pm (strip (remove_all am_pm (strip raw))) = Inl e"
    and "is_ValueError e"
  shows "parse_date now (Str raw) = parse_plain now (strip (remove_all am_pm (strip raw)))"
  using assms by (auto simp: parse_date_def Let_def)

text \<open>
  Claim C5: take a cell that reaches the morning/afternoon block (it is no sentinel, and
  neither the before-marker rule nor the event rule returned) and contains a marker, and
  let \<open>rest\<close> be the text with the marker removed and trimmed.  If \<open>rest\<close> does not parse
  with the 12-hour format, \<open>parse_date\<close> does not stop there: its result is that of the
  bare-year rule, of the year-month rule, or of the list of formats, applied to \<open>rest\<close>.
\<close>

theorem rule5_failure_falls_through:
  assumes "strip raw \<notin> set sentinels"
    and "\<not> contains kw_ijeon (strip raw) \<or> re_search (date_pattern 45) (strip raw) = None"
    and "\<not> contains kw_haengsa (strip raw) \<or> re_search (date_pattern 46) (strip raw) = None"
    and "re_search am_pm_pattern (strip raw) = Some am_pm"
    and "rest = strip (remove_all am_pm (strip raw))"
    and "to_datetime_format now ''%Y.%m.%d %I:%M'' rest = Inl e"
  shows "parse_date now (Str raw) =
    (if year_only rest then to_datetime_format now ''%Y'' rest
     else if year_month rest then to_datetime_format now ''%Y.%m'' rest
     else try_formats now date_formats rest)"
proof -
  from assms(4) have m: "am_pm = kw_ojeon \<or> am_pm = kw_ohu"
    by (rule re_search_am_pm_cases)
  from assms(6) have e: "is_ValueError e"
    by (rule to_datetime_format_error)
  from m assms(6) have "parse_am_pm now am_pm rest = Inl e"
    by (rule parse_am_pm_format_error)
  with assms(1-5) e have "parse_date now (Str raw) = parse_plain now rest"
    using parse_date_after_am_pm_failure [of raw am_pm now e] by simp
  then show ?thesis by (simp add: parse_plain_def)
qed

lemmas parse_defs = parse_date_def parse_plain_def parse_am_pm_def to_datetime_format_def

text \<open>
  Such cells do resolve through each of the three later rules: \<open>2024\<close> with the morning
  marker, \<open>2024.05\<close> with the afternoon marker, and the morning marker before
  \<open>2024-03-15 09:30\<close>.
\<close>

theorem rule5_failure_falls_through_witness:
  "parse_date 0 (Str (cps ''2024 '' @ kw_ojeon)) = Inr (Timestamp (ts_of_civil 2024 1 1 0 0 0)) \<and>
   parse_date 0 (Str (cps ''2024.05 '' @ kw_ohu)) = Inr (Timestamp (ts_of_civil 2024 5 1 0 0 0)) \<and>
   parse_date 0 (Str (kw_ojeon @ cps '' 2024-03-15 09:30''))
     = Inr (Timestamp (ts_of_civil 2024 3 15 9 30 0))"
  using
    rule5_failure_falls_through [of "cps ''2024 '' @ kw_ojeon" kw_ojeon "cps ''2024''" 0 ValueError]
    rule5_failure_falls_through [of "cps ''2024.05 '' @ kw_ohu" kw_ohu "cps ''2024.05''" 0 ValueError]
    rule5_failure_falls_through [of "kw_ojeon @ cps '' 2024-03-15 09:30''" kw_ojeon
      "cps ''2024-03-15 09:30''" 0 ValueError]
  by (simp add: to_datetime_format_def date_formats_def string_defs match_defs calendar_defs)


text \<open>
  Claim C10: when the morning/afternoon block fails with a \<open>ValueError\<close>, the later rules
  run on the text from which the marker was removed and which was trimmed again, not on
  the original cell.
\<close>

theorem later_rules_see_stripped_text:
  "strip raw \<notin> set sentinels \<longrightarrow>
   (\<not> contains kw_ijeon (strip raw) \<or> re_search (date_pattern 45) (strip raw) = None) \<longrightarrow>
   (\<not> contains kw_haengsa (strip raw) \<or> re_search (date_pattern 46) (strip raw) = None) \<longrightarrow>
   re_search am_pm_pattern (strip raw) = Some am_pm \<longrightarrow>
   parse_am_pm now am_pm (strip (remove_all am_pm (strip raw))) = Inl e \<longrightarrow>
   is_ValueError e \<longrightarrow>
   parse_date now (Str raw) = parse_plain now (strip (remove_all am_pm (strip raw)))"
  using parse_date_after_am_pm_failure [of raw am_pm now e] by blast

text \<open>
  The cell \<open>2024.03.15\<close> followed by the afternoon marker resolves as \<open>2024.03.15\<close> alone
  does, to 2024-03-15 00:00: the marker is dropped.
\<close>

theorem later_rules_see_stripped_text_witness:
  "parse_date 0 (Str (cps ''2024.03.15 '' @ kw_ohu)) = parse_plain 0 (cps ''2024.03.15'') \<and>
   parse_date 0 (Str (cps ''2024.03.15 '' @ kw_ohu))
     = Inr (Timestamp (ts_of_civil 2024 3 15 0 0 0))"
  using later_rules_see_stripped_text [of "cps ''2024.03.15 '' @ kw_ohu" kw_ohu 0 ValueError]
  by (simp add: parse_plain_def parse_am_pm_def to_datetime_format_def date_formats_def
      string_defs match_defs calendar_defs)

section \<open>Start dates\<close>

lemma minus_14_days_member:
  "minus_14_days ps = Inr qs \<Longrightarrow> (r, st, dt) \<in> set qs \<Longrightarrow>
   (dt = NaT \<and> st = NaT) \<or> (\<exists>v. dt = Timestamp v \<and> st = Timestamp (v - 14 * ns_per_day))"
proof (induction ps arbitrary: qs)
  case Nil
  then show ?case by simp
next
  case (Cons p ps)
  obtain r' dt' where p: "p = (r', dt')" by (cases p)
  from Cons.prems(1) p obtain st' qs' where
    st': "(case dt' of NaT \<Rightarrow> Inr NaT
           | Timestamp v \<Rightarrow> if in_bounds (v - 14 * ns_per_day)
               then Inr (Timestamp (v - 14 * ns_per_day)) else Inl OverflowError) = Inr st'"
    and qs': "minus_14_days ps = Inr qs'" and qs: "qs = (r', st', dt') # qs'"
    by (auto split: sum.splits)
  from Cons.prems(2) qs have "(r, st, dt) = (r', st', dt') \<or> (r, st, dt) \<in> set qs'" by simp
  then show ?case
  proof
    assume "(r, st, dt) = (r', st', dt')"
    with st' show ?thesis by (auto split: tstamp.splits if_splits)
  next
    assume "(r, st, dt) \<in> set qs'"
    with Cons.IH [OF qs'] show ?thesis .
  qed
qed

text \<open>
  Claim C6: in every row that is left after the rows without dates are dropped, the
  start date is the end date minus 14 days, and so lies strictly before it.
\<close>

theorem start_date_14_days_before_end:
  "derive_dates now rows = Inr out \<Longrightarrow> r \<in> set out \<Longrightarrow>
   \<exists>s e. r_start r = Timestamp s \<and> r_end r = Timestamp e \<and> s = e - 14 * ns_per_day \<and> s < e"
proof -
  assume d: "derive_dates now rows = Inr out" and r: "r \<in> set out"
  from d obtain ps qs where
    qs: "minus_14_days ps = Inr qs"
    and out: "out = map (\<lambda>(r, st, dt).
                \<lparr>r_name = name r, r_start = st, r_end = dt,
                 r_manager = (case manager r of NaN \<Rightarrow> cps ''Unknown'' | Str s \<Rightarrow> s)\<rparr>)
              (filter (\<lambda>(r, st, dt). st \<noteq> NaT \<and> dt \<noteq> NaT) qs)"
    by (auto simp: derive_dates_def split: sum.splits)
  from r out obtain r0 st dt where
    mem: "(r0, st, dt) \<in> set qs" and ne: "st \<noteq> NaT" "dt \<noteq> NaT"
    and r_eq: "r_start r = st" "r_end r = dt"
    by auto
  from minus_14_days_member [OF qs mem] ne obtain v where
    "dt = Timestamp v" "st = Timestamp (v - 14 * ns_per_day)"
    by auto
  with r_eq show ?thesis by (simp add: ns_per_day_def ns_per_hour_def ns_per_minute_def ns_per_second_def)
qed

text \<open>
  A row whose end-date cell is \<open>2024.03.01\<close> gets the start date 2024-02-16.
\<close>

theorem start_date_14_days_before_end_witness:
  "derive_dates 0 [\<lparr>name = Str (cps ''A''), end_date = Str (cps ''2024.03.01''), manager = NaN\<rparr>]
     = Inr [\<lparr>r_name = Str (cps ''A''), r_start = Timestamp (ts_of_civil 2024 2 16 0 0 0),
             r_end = Timestamp (ts_of_civil 2024 3 1 0 0 0), r_manager = cps ''Unknown''\<rparr>] \<and>
   (\<exists>s e. Timestamp (ts_of_civil 2024 2 16 0 0 0) = Timestamp s \<and>
      Timestamp (ts_of_civil 2024 3 1 0 0 0) = Timestamp e \<and> s = e - 14 * ns_per_day \<and> s < e)"
proof -
  have d: "derive_dates 0 [\<lparr>name = Str (cps ''A''), end_date = Str (cps ''2024.03.01''), manager = NaN\<rparr>]
     = Inr [\<lparr>r_name = Str (cps ''A''), r_start = Timestamp (ts_of_civil 2024 2 16 0 0 0),
             r_end = Timestamp (ts_of_civil 2024 3 1 0 0 0), r_manager = cps ''Unknown''\<rparr>]"
    by (simp add: derive_dates_def parse_defs date_formats_def string_defs match_defs calendar_defs)
  from start_date_14_days_before_end [OF d, of "\<lparr>r_name = Str (cps ''A''), r_start = Timestamp (ts_of_civil 2024 2 16 0 0 0),
             r_end = Timestamp (ts_of_civil 2024 3 1 0 0 0), r_manager = cps ''Unknown''\<rparr>"] d
  show ?thesis by simp
qed



section \<open>Dates written out in digits\<close>

lemma digit_char_digit:
  assumes "0 \<le> k" "k \<le> 9"
  shows "is_digit (digit_char k)" "digit_val (digit_char k) = k" "\<not> is_space (digit_char k)"
    "digit_char k < 128" "48 \<le> digit_char k" "digit_char k \<le> 57"
  using assms by (auto simp: digit_char_def is_digit_ascii not_digit_hangul digit_val_ascii is_space_def)

lemma pad2_digits:
  fixes n :: int
  assumes "0 \<le> n" "n \<le> 99"
  shows "0 \<le> n div 10" "n div 10 \<le> 9" "0 \<le> n mod 10" "n mod 10 \<le> 9"
    "10 * (n div 10) + n mod 10 = n"
  using assms by auto

lemma pad4_digits:
  fixes y :: int
  assumes "0 \<le> y" "y \<le> 9999"
  shows "0 \<le> y div 1000" "y div 1000 \<le> 9" "0 \<le> y div 100 mod 10" "y div 100 mod 10 \<le> 9"
    "0 \<le> y div 10 mod 10" "y div 10 mod 10 \<le> 9" "0 \<le> y mod 10" "y mod 10 \<le> 9"
    "1000 * (y div 1000) + 100 * (y div 100 mod 10) + 10 * (y div 10 mod 10) + y mod 10 = y"
proof -
  show "0 \<le> y div 1000" "y div 1000 \<le> 9" using assms by auto
  show "0 \<le> y div 100 mod 10" "y div 100 mod 10 \<le> 9" "0 \<le> y div 10 mod 10"
    "y div 10 mod 10 \<le> 9" "0 \<le> y mod 10" "y mod 10 \<le> 9" by auto
  have a: "y div 1000 = y div 100 div 10" and b: "y div 100 = y div 10 div 10"
    by (simp_all add: zdiv_zmult2_eq [symmetric])
  have c: "10 * (y div 100 div 10) + y div 100 mod 10 = y div 100"
    and d: "10 * (y div 10 div 10) + y div 10 mod 10 = y div 10"
    and e: "10 * (y div 10) + y mod 10 = y"
    by (rule mult_div_mod_eq)+
  from a b c d e show "1000 * (y div 1000) + 100 * (y div 100 mod 10) + 10 * (y div 10 mod 10)
    + y mod 10 = y" by linarith
qed

lemma strip_id:
  assumes "s \<noteq> []" "\<not> is_space (hd s)" "\<not> is_space (last s)"
  shows "strip s = s"
proof -
  from assms(1,2) have 1: "dropWhile is_space s = s" by (cases s) auto
  from assms(1,3) have 2: "dropWhile is_space (rev s) = rev s"
    by (cases "rev s") (auto simp: hd_rev)
  show ?thesis by (simp add: strip_def 1 2)
qed

lemma not_contains_absent:
  "c \<notin> set s \<Longrightarrow> \<not> contains (c # n) s"
  by (induction s) auto

lemma ascii_append [simp]: "ascii (s @ t) \<longleftrightarrow> ascii s \<and> ascii t"
  by (simp add: ascii_def)

lemma ascii_Cons [simp]: "ascii (c # s) \<longleftrightarrow> c < 128 \<and> ascii s"
  by (simp add: ascii_def)

lemma ascii_Nil [simp]: "ascii []"
  by (simp add: ascii_def)

lemma ascii_not_in:
  "ascii s \<Longrightarrow> 128 \<le> c \<Longrightarrow> c \<notin> set s"
  by (auto simp: ascii_def list_all_iff)

lemma ascii_pad2: "0 \<le> n \<Longrightarrow> n \<le> 99 \<Longrightarrow> ascii (pad2 n)"
  by (simp add: pad2_def digit_char_digit pad2_digits)

lemma ascii_pad4: "0 \<le> n \<Longrightarrow> n \<le> 9999 \<Longrightarrow> ascii (pad4 n)"
  by (simp add: pad4_def digit_char_digit pad4_digits)

lemma ascii_no_am_pm: "ascii s \<Longrightarrow> re_search am_pm_pattern s = None"
  by (induction s) (auto simp: am_pm_pattern_def kw_ojeon_def kw_ohu_def)

lemma ascii_am_pm_found:
  "ascii p \<Longrightarrow> mk = kw_ojeon \<or> mk = kw_ohu \<Longrightarrow> re_search am_pm_pattern (p @ mk @ q) = Some mk"
  by (induction p) (auto simp: am_pm_pattern_def kw_ojeon_def kw_ohu_def)

lemma ascii_remove_all:
  "ascii s \<Longrightarrow> 128 \<le> k \<Longrightarrow> remove_all (k # ks) s = s"
  by (induction s) auto

lemma ascii_remove_marker:
  "ascii p \<Longrightarrow> ascii q \<Longrightarrow> mk = kw_ojeon \<or> mk = kw_ohu \<Longrightarrow> remove_all mk (p @ mk @ q) = p @ q"
  by (induction p) (auto simp: kw_ojeon_def kw_ohu_def ascii_remove_all)

lemma ascii_not_sentinel: "ascii s \<Longrightarrow> s \<notin> set sentinels"
  by (auto simp: sentinels_def)

lemma fmt_matches_head:
  assumes "alts t s = (v, r) # others"
    and "fmt_matches ts (capture t v c) r = x # rest"
  shows "\<exists>rest'. fmt_matches (t # ts) c s = x # rest'"
  using assms by simp

lemma two_chars_digits:
  assumes "0 \<le> a" "a \<le> 9" "0 \<le> b" "b \<le> 9" "p (digit_char a)" "q (digit_char b)"
  shows "two_chars p q (digit_char a # digit_char b # r) = [(10 * a + b, r)]"
  using assms by (simp add: two_chars_def digit_char_digit)

lemma alts_DY_pad4:
  assumes "0 \<le> y" "y \<le> 9999"
  shows "alts DY (pad4 y @ r) = [(y, r)]"
proof -
  note d = pad4_digits [OF assms]
  have "four_digits (pad4 y @ r) =
    [(1000 * (y div 1000) + 100 * (y div 100 mod 10) + 10 * (y div 10 mod 10) + y mod 10, r)]"
    by (simp add: pad4_def four_digits_def digit_char_digit d(1-8))
  then show ?thesis by (simp only: d(9) alts.simps)
qed

lemma alts_Lit_hit: "alts (Lit c) (c # r) = [(0, r)]"
  by simp

lemma alts_Dm_pad2:
  assumes "1 \<le> m" "m \<le> 12"
  shows "\<exists>others. alts Dm (pad2 m @ r) = (m, r) # others"
proof -
  from assms have "m = 1 \<or> m = 2 \<or> m = 3 \<or> m = 4 \<or> m = 5 \<or> m = 6 \<or> m = 7 \<or> m = 8 \<or> m = 9 \<or> m = 10 \<or> m = 11 \<or> m = 12" by arith
  then show ?thesis
    by (elim disjE) (simp_all add: pad2_def digit_char_def match_defs digit_val_ascii)
qed

lemma alts_DI_pad2:
  assumes "1 \<le> h" "h \<le> 12"
  shows "\<exists>others. alts DI (pad2 h @ r) = (h, r) # others"
proof -
  from assms have "h = 1 \<or> h = 2 \<or> h = 3 \<or> h = 4 \<or> h = 5 \<or> h = 6 \<or> h = 7 \<or> h = 8 \<or> h = 9 \<or> h = 10 \<or> h = 11 \<or> h = 12" by arith
  then show ?thesis
    by (elim disjE) (simp_all add: pad2_def digit_char_def match_defs digit_val_ascii)
qed

lemma alts_Dd_pad2:
  assumes "1 \<le> d" "d \<le> 31"
  shows "\<exists>others. alts Dd (pad2 d @ r) = (d, r) # others"
proof -
  from assms have "d = 1 \<or> d = 2 \<or> d = 3 \<or> d = 4 \<or> d = 5 \<or> d = 6 \<or> d = 7 \<or> d = 8 \<or> d = 9 \<or> d = 10 \<or> d = 11 \<or> d = 12 \<or> d = 13 \<or> d = 14 \<or> d = 15 \<or> d = 16 \<or>
    d = 17 \<or> d = 18 \<or> d = 19 \<or> d = 20 \<or> d = 21 \<or> d = 22 \<or> d = 23 \<or> d = 24 \<or> d = 25 \<or> d = 26 \<or> d = 27 \<or> d = 28 \<or> d = 29 \<or> d = 30 \<or> d = 31"
    by arith
  then show ?thesis
    by (elim disjE)
      (simp_all add: pad2_def digit_char_def match_defs digit_val_ascii is_digit_ascii not_digit_hangul)
qed

lemma alts_DM_pad2:
  assumes "0 \<le> mi" "mi \<le> 59"
  shows "\<exists>others. alts DM (pad2 mi @ r) = (mi, r) # others"
proof -
  from assms have d: "0 \<le> mi div 10" "mi div 10 \<le> 5" "0 \<le> mi mod 10" "mi mod 10 \<le> 9"
    "10 * (mi div 10) + mi mod 10 = mi" by auto
  then have "in_range 48 53 (digit_char (mi div 10))"
    unfolding in_range_def digit_char_def by arith
  with d have "two_chars (in_range 48 53) is_digit (digit_char (mi div 10) # digit_char (mi mod 10) # r)
    = [(mi, r)]"
    using two_chars_digits [of "mi div 10" "mi mod 10" "in_range 48 53" is_digit r]
    by (simp add: digit_char_digit)
  then show ?thesis by (simp add: pad2_def)
qed

section \<open>Matching a format against a date written out in digits\<close>

lemma first_isI: "xs = x # q \<Longrightarrow> first_is xs x"
  by (simp add: first_is_def)

lemma first_isE: "first_is xs x \<Longrightarrow> \<exists>q. xs = x # q"
  by (cases xs) (auto simp: first_is_def)

lemma first_is_step:
  assumes "alts t s = (v, r) # others"
    and "first_is (fmt_matches ts (capture t v c) r) x"
  shows "first_is (fmt_matches (t # ts) c s) x"
proof -
  from first_isE [OF assms(2)] obtain q where "fmt_matches ts (capture t v c) r = x # q" ..
  with assms(1) show ?thesis by (simp add: first_is_def)
qed

lemma first_is_Nil: "first_is (fmt_matches [] c s) (c, s)"
  by (simp add: first_is_def)

lemma step_Lit:
  "first_is (fmt_matches ts c r) x \<Longrightarrow> first_is (fmt_matches (Lit k # ts) c (k # r)) x"
  using first_is_step [OF alts_Lit_hit, of ts k c r x] by simp

lemma step_DY:
  assumes "0 \<le> y" "y \<le> 9999" "first_is (fmt_matches ts (c\<lparr>cap_Y := Some y\<rparr>) r) x"
  shows "first_is (fmt_matches (DY # ts) c (pad4 y @ r)) x"
  using first_is_step [OF alts_DY_pad4 [OF assms(1,2)], of ts c r x] assms(3) by simp

lemma step_Dm:
  assumes "1 \<le> m" "m \<le> 12" "first_is (fmt_matches ts (c\<lparr>cap_m := Some m\<rparr>) r) x"
  shows "first_is (fmt_matches (Dm # ts) c (pad2 m @ r)) x"
proof -
  from alts_Dm_pad2 [OF assms(1,2)] obtain others where
    "alts Dm (pad2 m @ r) = (m, r) # others" by blast
  from first_is_step [OF this, of ts c x] assms(3) show ?thesis by simp
qed

lemma step_Dd:
  assumes "1 \<le> d" "d \<le> 31" "first_is (fmt_matches ts (c\<lparr>cap_d := Some d\<rparr>) r) x"
  shows "first_is (fmt_matches (Dd # ts) c (pad2 d @ r)) x"
proof -
  from alts_Dd_pad2 [OF assms(1,2)] obtain others where
    "alts Dd (pad2 d @ r) = (d, r) # others" by blast
  from first_is_step [OF this, of ts c x] assms(3) show ?thesis by simp
qed

lemma step_DI:
  assumes "1 \<le> h" "h \<le> 12" "first_is (fmt_matches ts (c\<lparr>cap_I := Some h\<rparr>) r) x"
  shows "first_is (fmt_matches (DI # ts) c (pad2 h @ r)) x"
proof -
  from alts_DI_pad2 [OF assms(1,2)] obtain others where
    "alts DI (pad2 h @ r) = (h, r) # others" by blast
  from first_is_step [OF this, of ts c x] assms(3) show ?thesis by simp
qed

lemma step_DM:
  assumes "0 \<le> mi" "mi \<le> 59" "first_is (fmt_matches ts (c\<lparr>cap_M := Some mi\<rparr>) r) x"
  shows "first_is (fmt_matches (DM # ts) c (pad2 mi @ r)) x"
proof -
  from alts_DM_pad2 [OF assms(1,2)] obtain others where
    "alts DM (pad2 mi @ r) = (mi, r) # others" by blast
  from first_is_step [OF this, of ts c x] assms(3) show ?thesis by simp
qed

lemma step_Ws2:
  assumes "s \<noteq> []" "\<not> is_space (hd s)" "first_is (fmt_matches ts c s) x"
  shows "first_is (fmt_matches (Ws # ts) c (32 # 32 # s)) x"
proof -
  from assms(1) obtain a r where s: "s = a # r" by (cases s) auto
  with assms(2) have "alts Ws (32 # 32 # s) = (0, s) # [(0, 32 # s)]"
    by (simp add: is_space_def)
  from first_is_step [OF this, of ts c x] assms(3) show ?thesis by simp
qed

lemma length_date_text: "length (date_text sep y m d) = 10"
  by (simp add: date_text_def pad4_def pad2_def)

lemma long_text_not_special:
  assumes "5 < length s"
  shows "s \<noteq> []" "s \<notin> set nat_strings" "s \<noteq> cps ''now''" "s \<noteq> cps ''today''"
  using assms by (auto simp: nat_strings_def cps_def)

lemma to_datetime_format_first:
  assumes "5 < length s" "tokenize fmt = Some ts" "first_is (fmt_matches ts no_captures s) (c, [])"
  shows "to_datetime_format now fmt s = timestamp_of_captures c"
proof -
  from first_isE [OF assms(3)] obtain q where "fmt_matches ts no_captures s = (c, []) # q" ..
  with long_text_not_special [OF assms(1)] assms(2) show ?thesis
    by (simp add: to_datetime_format_def)
qed

lemma valid_date_bounds:
  "valid_date y m d \<Longrightarrow> 1 \<le> m \<and> m \<le> 12 \<and> 1 \<le> d \<and> d \<le> 31"
  by (auto simp: valid_date_def days_in_month_def split: if_splits)

lemma date_text_first:
  assumes "0 \<le> y" "y \<le> 9999" "valid_date y m d"
    and "first_is (fmt_matches ts (c\<lparr>cap_Y := Some y, cap_m := Some m, cap_d := Some d\<rparr>) r) x"
  shows "first_is (fmt_matches (DY # Lit sep # Dm # Lit sep # Dd # ts) c (date_text sep y m d @ r)) x"
proof -
  from valid_date_bounds [OF assms(3)] have b: "1 \<le> m" "m \<le> 12" "1 \<le> d" "d \<le> 31" by auto
  have "first_is (fmt_matches (DY # Lit sep # Dm # Lit sep # Dd # ts) c
      (pad4 y @ sep # pad2 m @ sep # pad2 d @ r)) x"
    by (intro step_DY step_Lit step_Dm step_Dd assms(1,2) b) (use assms(4) in simp)
  then show ?thesis by (simp add: date_text_def)
qed


lemma date_text_digits:
  assumes "0 \<le> y" "y \<le> 9999" "valid_date y m d"
  shows "date_text sep y m d =
    [digit_char (y div 1000), digit_char (y div 100 mod 10), digit_char (y div 10 mod 10),
     digit_char (y mod 10), sep, digit_char (m div 10), digit_char (m mod 10), sep,
     digit_char (d div 10), digit_char (d mod 10)]"
  and "list_all is_digit
    [digit_char (y div 1000), digit_char (y div 100 mod 10), digit_char (y div 10 mod 10),
     digit_char (y mod 10), digit_char (m div 10), digit_char (m mod 10),
     digit_char (d div 10), digit_char (d mod 10)]"
  using assms valid_date_bounds [OF assms(3)]
  by (simp_all add: date_text_def pad4_def pad2_def digit_char_digit pad4_digits pad2_digits)

lemma date_text_ascii:
  assumes "0 \<le> y" "y \<le> 9999" "valid_date y m d" "sep < 128"
  shows "ascii (date_text sep y m d)"
  using assms valid_date_bounds [OF assms(3)]
  by (simp add: date_text_def ascii_pad2 ascii_pad4)

lemma date_text_ends:
  assumes "0 \<le> y" "y \<le> 9999" "valid_date y m d"
  shows "\<not> is_space (hd (date_text sep y m d))" "\<not> is_space (last (date_text sep y m d))"
  using assms valid_date_bounds [OF assms(3)]
  by (simp_all add: date_text_def pad4_def pad2_def digit_char_digit pad4_digits pad2_digits)

lemma parse_date_ascii_text:
  assumes "ascii s" "strip s = s"
  shows "parse_date now (Str s) = parse_plain now s"
proof -
  from assms(1) have "51060 \<notin> set s" "54665 \<notin> set s"
    by (simp_all add: ascii_not_in)
  then have "\<not> contains kw_ijeon s" "\<not> contains kw_haengsa s"
    by (simp_all add: kw_ijeon_def kw_haengsa_def not_contains_absent)
  with assms ascii_not_sentinel [OF assms(1)] ascii_no_am_pm [OF assms(1)] show ?thesis
    by (simp add: parse_date_def)
qed

lemma length_10_not_bare:
  "length s = 10 \<Longrightarrow> \<not> year_only s \<and> \<not> year_month s"
  by (auto simp: year_only_def year_month_def split: list.splits)

lemma make_timestamp_ok:
  assumes "1 \<le> y" "valid_date y m d" "in_bounds (ts_of_civil y m d hh mi ss)"
  shows "make_timestamp y m d hh mi ss = Inr (Timestamp (ts_of_civil y m d hh mi ss))"
  using assms by (simp add: make_timestamp_def)

lemma tokenize_ymd_dash: "tokenize ''%Y-%m-%d'' = Some [DY, Lit 45, Dm, Lit 45, Dd]"
  by (simp add: is_space_def)

section \<open>What a match of a format consumes\<close>

text \<open>
  A match of a format takes a prefix of the text, and every literal character of the
  format occurs in that prefix.  So a format with a literal that the text lacks raises
  \<open>ValueError\<close>.
\<close>

lemma spaces_suffix: "r \<in> set (spaces s) \<Longrightarrow> suffix r s"
  by (induction s) (auto simp: suffix_Cons split: if_splits)

lemma alts_suffix: "(v, r) \<in> set (alts t s) \<Longrightarrow> suffix r s"
proof (cases t)
  case Ws
  assume "(v, r) \<in> set (alts t s)"
  with Ws show ?thesis by (auto dest: spaces_suffix)
next
  case Dd
  assume "(v, r) \<in> set (alts t s)"
  with Dd show ?thesis
    by (auto simp: match_defs suffix_Cons split: list.splits if_splits)
qed (auto simp: match_defs suffix_Cons split: list.splits if_splits)

lemma fmt_matches_suffix: "(c', r) \<in> set (fmt_matches ts c s) \<Longrightarrow> suffix r s"
proof (induction ts arbitrary: c s)
  case Nil
  then show ?case by simp
next
  case (Cons t ts)
  from Cons.prems obtain v r1 where "(v, r1) \<in> set (alts t s)"
    and "(c', r) \<in> set (fmt_matches ts (capture t v c) r1)"
    by auto
  then have "suffix r1 s" "suffix r r1" by (auto dest: alts_suffix Cons.IH)
  then show ?case by (metis suffix_order.trans)
qed

lemma fmt_matches_literal:
  assumes "(c', r) \<in> set (fmt_matches ts c s)" "Lit k \<in> set ts"
  shows "\<exists>p. s = p @ r \<and> k \<in> set p"
  using assms
proof (induction ts arbitrary: c s)
  case Nil
  then show ?case by simp
next
  case (Cons t ts)
  from Cons.prems(1) obtain v r1 where a: "(v, r1) \<in> set (alts t s)"
    and m: "(c', r) \<in> set (fmt_matches ts (capture t v c) r1)"
    by auto
  from alts_suffix [OF a] obtain p1 where p1: "s = p1 @ r1" by (auto simp: suffix_def)
  show ?case
  proof (cases "t = Lit k")
    case True
    with a have "s = k # r1" by (auto split: list.splits if_splits)
    moreover from fmt_matches_suffix [OF m] obtain p2 where "r1 = p2 @ r"
      by (auto simp: suffix_def)
    ultimately have "s = (k # p2) @ r \<and> k \<in> set (k # p2)" by simp
    then show ?thesis by blast
  next
    case False
    with Cons.prems(2) have "Lit k \<in> set ts" by simp
    from Cons.IH [OF m this] obtain p2 where "r1 = p2 @ r" "k \<in> set p2" by blast
    with p1 have "s = (p1 @ p2) @ r \<and> k \<in> set (p1 @ p2)" by simp
    then show ?thesis by blast
  qed
qed

lemma to_datetime_format_missing_literal:
  assumes "tokenize fmt = Some ts" "Lit k \<in> set ts" "k \<notin> set s" "5 < length s"
  shows "to_datetime_format now fmt s = Inl ValueError"
proof -
  have "r \<noteq> []" if "(c, r) \<in> set (fmt_matches ts no_captures s)" for c r
  proof
    assume "r = []"
    with fmt_matches_literal [OF that assms(2)] assms(3) show False by simp
  qed
  then have "case fmt_matches ts no_captures s of [] \<Rightarrow> True | (c, r) # _ \<Rightarrow> r \<noteq> []"
    by (cases "fmt_matches ts no_captures s") auto
  with long_text_not_special [OF assms(4)] assms(1) show ?thesis
    by (auto simp: to_datetime_format_def split: list.splits)
qed

lemma try_formats_all_fail:
  assumes "\<And>fmt. fmt \<in> set fmts \<Longrightarrow> \<exists>e. to_datetime_format now fmt s = Inl e"
  shows "try_formats now fmts s = Inr NaT"
  using assms
proof (induction fmts)
  case Nil
  then show ?case by simp
next
  case (Cons fmt fmts)
  from Cons.prems obtain e where e: "to_datetime_format now fmt s = Inl e" by auto
  then have "is_ValueError e" by (rule to_datetime_format_error)
  with e Cons show ?case by simp
qed

section \<open>Canonical dates\<close>

lemma date_text_chars:
  assumes "0 \<le> y" "y \<le> 9999" "valid_date y m d"
  shows "list_all (\<lambda>x. x = sep \<or> (48 \<le> x \<and> x \<le> 57)) (date_text sep y m d)"
proof -
  from valid_date_bounds [OF assms(3)] have m99: "0 \<le> m" "m \<le> 99" and d99: "0 \<le> d" "d \<le> 99"
    by auto
  note dg = pad4_digits(1-8) [OF assms(1,2)] pad2_digits(1-4) [OF m99] pad2_digits(1-4) [OF d99]
  show ?thesis
    unfolding date_text_digits(1) [OF assms(1-3)]
    by (simp add: digit_char_digit(5,6) dg)
qed

lemma tokenize_date_formats:
  "tokenize ''%Y.%m.%d'' = Some [DY, Lit 46, Dm, Lit 46, Dd]"
  "tokenize ''%Y-%m-%d %H:%M'' = Some [DY, Lit 45, Dm, Lit 45, Dd, Ws, DH, Lit 58, DM]"
  "tokenize ''%Y.%m.%d %H:%M'' = Some [DY, Lit 46, Dm, Lit 46, Dd, Ws, DH, Lit 58, DM]"
  "tokenize ''%Y-%m-%d %p %I:%M'' = Some [DY, Lit 45, Dm, Lit 45, Dd, Ws, Dp, Ws, DI, Lit 58, DM]"
  "tokenize ''%Y.%m.%d %p %I:%M'' = Some [DY, Lit 46, Dm, Lit 46, Dd, Ws, Dp, Ws, DI, Lit 58, DM]"
  "tokenize ''%Y-%m-%d %H:%M:%S'' = Some [DY, Lit 45, Dm, Lit 45, Dd, Ws, DH, Lit 58, DM, Lit 58, DS]"
  "tokenize ''%Y.%m.%d %H:%M:%S'' = Some [DY, Lit 46, Dm, Lit 46, Dd, Ws, DH, Lit 58, DM, Lit 58, DS]"
  "tokenize ''%Y. %m. %d. %H:%M'' =
     Some [DY, Lit 46, Ws, Dm, Lit 46, Ws, Dd, Lit 46, Ws, DH, Lit 58, DM]"
  "tokenize ''%Y.%m.%d.%H'' = Some [DY, Lit 46, Dm, Lit 46, Dd, Lit 46, DH]"
  by (simp_all add: is_space_def)

lemma canonical_text_other_formats:
  assumes "0 \<le> y" "y \<le> 9999" "valid_date y m d"
  shows "list_all (\<lambda>fmt. to_datetime_format now fmt (date_text 45 y m d) = Inl ValueError)
    (tl date_formats)"
proof -
  let ?s = "date_text 45 y m d"
  have n: "46 \<notin> set ?s" "58 \<notin> set ?s"
    using date_text_chars [OF assms(1-3), of 45] by (auto simp: list_all_iff)
  have l: "5 < length ?s" by (simp add: length_date_text)
  note t = tokenize_date_formats
  have f: "to_datetime_format now ''%Y.%m.%d'' ?s = Inl ValueError"
    "to_datetime_format now ''%Y-%m-%d %H:%M'' ?s = Inl ValueError"
    "to_datetime_format now ''%Y.%m.%d %H:%M'' ?s = Inl ValueError"
    "to_datetime_format now ''%Y-%m-%d %p %I:%M'' ?s = Inl ValueError"
    "to_datetime_format now ''%Y.%m.%d %p %I:%M'' ?s = Inl ValueError"
    "to_datetime_format now ''%Y-%m-%d %H:%M:%S'' ?s = Inl ValueError"
    "to_datetime_format now ''%Y.%m.%d %H:%M:%S'' ?s = Inl ValueError"
    "to_datetime_format now ''%Y. %m. %d. %H:%M'' ?s = Inl ValueError"
    "to_datetime_format now ''%Y.%m.%d.%H'' ?s = Inl ValueError"
    by (rule to_datetime_format_missing_literal [OF t(1) _ n(1) l], simp,
        rule to_datetime_format_missing_literal [OF t(2) _ n(2) l], simp,
        rule to_datetime_format_missing_literal [OF t(3) _ n(1) l], simp,
        rule to_datetime_format_missing_literal [OF t(4) _ n(2) l], simp,
        rule to_datetime_format_missing_literal [OF t(5) _ n(1) l], simp,
        rule to_datetime_format_missing_literal [OF t(6) _ n(2) l], simp,
        rule to_datetime_format_missing_literal [OF t(7) _ n(1) l], simp,
        rule to_datetime_format_missing_literal [OF t(8) _ n(1) l], simp,
        rule to_datetime_format_missing_literal [OF t(9) _ n(1) l], simp)
  show ?thesis
    by (simp add: date_formats_def f)
qed

text \<open>
  Counterexample to claim C8 as stated (every valid date in the form \<open>YYYY-MM-DD\<close>
  resolves to that date): 3000-01-01 is a date of the calendar, and a \<open>Timestamp\<close> cannot
  hold it.  The first format raises \<open>OutOfBoundsDatetime\<close>, which the \<open>except ValueError\<close>
  of line 98 catches, no other format matches, and \<open>parse_date\<close> returns \<open>NaT\<close>.
\<close>

theorem canonical_date_out_of_range:
  "valid_date 3000 1 1 \<and> parse_date 0 (Str (cps ''3000-01-01'')) = Inr NaT"
  by (simp add: parse_date_def parse_plain_def to_datetime_format_def date_formats_def
      string_defs match_defs calendar_defs)

text \<open>
  Claim C8, amended: the text \<open>YYYY-MM-DD\<close> of a date of the calendar resolves to midnight
  of exactly that date when a \<open>Timestamp\<close> can hold it, and to \<open>NaT\<close> when it cannot.
\<close>

theorem canonical_date_resolves_to_itself:
  assumes "1 \<le> y" "y \<le> 9999" "valid_date y m d"
  shows "parse_date now (Str (date_text 45 y m d)) =
    (if in_bounds (ts_of_civil y m d 0 0 0) then Inr (Timestamp (ts_of_civil y m d 0 0 0))
     else Inr NaT)"
proof -
  let ?s = "date_text 45 y m d"
  from assms have y0: "0 \<le> y" by simp
  have "strip ?s = ?s"
    using date_text_ends [OF y0 assms(2,3)] by (intro strip_id) (simp_all add: date_text_def pad4_def)
  with date_text_ascii [OF y0 assms(2,3)] have 1: "parse_date now (Str ?s) = parse_plain now ?s"
    by (intro parse_date_ascii_text) simp_all
  have 2: "parse_plain now ?s = try_formats now date_formats ?s"
    using length_10_not_bare [OF length_date_text] by (simp add: parse_plain_def)
  have "first_is (fmt_matches [DY, Lit 45, Dm, Lit 45, Dd] no_captures (?s @ []))
      (no_captures\<lparr>cap_Y := Some y, cap_m := Some m, cap_d := Some d\<rparr>, [])"
    by (intro date_text_first y0 assms(2,3) first_is_Nil)
  then have "to_datetime_format now ''%Y-%m-%d'' ?s
      = timestamp_of_captures (no_captures\<lparr>cap_Y := Some y, cap_m := Some m, cap_d := Some d\<rparr>)"
    by (intro to_datetime_format_first [OF _ tokenize_ymd_dash]) (simp_all add: length_date_text)
  also have "\<dots> = make_timestamp y m d 0 0 0"
    by (simp add: timestamp_of_captures_def no_captures_def)
  finally have 3: "to_datetime_format now ''%Y-%m-%d'' ?s = make_timestamp y m d 0 0 0" .
  have d: "date_formats = ''%Y-%m-%d'' # tl date_formats" by (simp add: date_formats_def)
  have 4: "try_formats now date_formats ?s
      = (case make_timestamp y m d 0 0 0 of
           Inr dt \<Rightarrow> Inr dt
         | Inl e \<Rightarrow> if is_ValueError e then try_formats now (tl date_formats) ?s else Inl e)"
    by (subst d) (simp only: try_formats.simps 3)
  have 5: "try_formats now (tl date_formats) ?s = Inr NaT"
    using canonical_text_other_formats [OF y0 assms(2,3), of now]
    by (intro try_formats_all_fail) (simp add: list_all_iff)
  have "try_formats now date_formats ?s =
    (if in_bounds (ts_of_civil y m d 0 0 0) then Inr (Timestamp (ts_of_civil y m d 0 0 0))
     else Inr NaT)"
    unfolding 4 5 using assms(1,3) by (simp add: make_timestamp_def)
  with 1 2 show ?thesis by simp
qed

text \<open>
  The leap day 2024-02-29 resolves to itself; 1500-03-15 lies before the range of a
  \<open>Timestamp\<close> and is unresolved.
\<close>

theorem canonical_date_resolves_to_itself_witness:
  "valid_date 2024 2 29 \<and> in_bounds (ts_of_civil 2024 2 29 0 0 0) \<and>
   parse_date 0 (Str (cps ''2024-02-29'')) = Inr (Timestamp (ts_of_civil 2024 2 29 0 0 0)) \<and>
   valid_date 1500 3 15 \<and> \<not> in_bounds (ts_of_civil 1500 3 15 0 0 0) \<and>
   parse_date 0 (Str (cps ''1500-03-15'')) = Inr NaT"
  using canonical_date_resolves_to_itself [of 2024 2 29 0]
    canonical_date_resolves_to_itself [of 1500 3 15 0]
  by (simp add: date_text_def pad4_def pad2_def digit_char_def cps_def calendar_defs)

section \<open>The before-marker rule\<close>

lemma to_datetime_date_text:
  assumes "1 \<le> y" "y \<le> 9999" "valid_date y m d" "in_bounds (ts_of_civil y m d 0 0 0)"
  shows "to_datetime (date_text 45 y m d) = Inr (Timestamp (ts_of_civil y m d 0 0 0))"
proof -
  from assms have y0: "0 \<le> y" by simp
  note b = valid_date_bounds [OF assms(3)]
  note dy = pad4_digits [OF y0 assms(2)]
  from b have m99: "0 \<le> m" "m \<le> 99" and d99: "0 \<le> d" "d \<le> 99" by auto
  note dm = pad2_digits [OF m99] and dd = pad2_digits [OF d99]
  have v: "digit_val (digit_char (y div 1000)) = y div 1000"
    "digit_val (digit_char (y div 100 mod 10)) = y div 100 mod 10"
    "digit_val (digit_char (y div 10 mod 10)) = y div 10 mod 10"
    "digit_val (digit_char (y mod 10)) = y mod 10"
    "digit_val (digit_char (m div 10)) = m div 10" "digit_val (digit_char (m mod 10)) = m mod 10"
    "digit_val (digit_char (d div 10)) = d div 10" "digit_val (digit_char (d mod 10)) = d mod 10"
    by (simp_all add: digit_char_digit dy dm dd)
  have "to_datetime (date_text 45 y m d) =
    (let y' = 1000 * (y div 1000) + 100 * (y div 100 mod 10) + 10 * (y div 10 mod 10) + y mod 10;
         m' = 10 * (m div 10) + m mod 10;
         d' = 10 * (d div 10) + d mod 10
     in if 1 \<le> y' \<and> valid_date y' m' d' then
          (if in_bounds (ts_of_civil y' m' d' 0 0 0)
           then Inr (Timestamp (ts_of_civil y' m' d' 0 0 0))
           else Inl OutOfBoundsDatetime)
        else Inl DateParseError)"
    unfolding to_datetime_def date_text_digits(1) [OF y0 assms(2,3)]
    using date_text_digits(2) [OF y0 assms(2,3)]
    by (simp only: list.case v if_True simp_thms)
  also have "\<dots> = Inr (Timestamp (ts_of_civil y m d 0 0 0))"
    unfolding dy(9) dm(5) dd(5) Let_def using assms by simp
  finally show ?thesis .
qed

lemma re_search_before_date:
  assumes "0 \<le> y" "y \<le> 9999" "valid_date y m d"
  shows "re_search (date_pattern 45) (kw_ijeon @ date_text 45 y m d) = Some (date_text 45 y m d)"
  using date_text_digits(2) [OF assms]
  unfolding date_text_digits(1) [OF assms] kw_ijeon_def
  by (simp add: date_pattern_def is_digit_ascii not_digit_hangul)

lemma div_step:
  fixes n k :: int
  assumes "1 < k"
  shows "n div k = (n - 1) div k + (if n mod k = 0 then 1 else 0)"
proof (cases "n mod k = 0")
  case True
  from mult_div_mod_eq [of k n] True have "n = k * (n div k)" by simp
  then have "n - 1 = k * (n div k - 1) + (k - 1)" by (simp add: algebra_simps)
  then have "(n - 1) div k = n div k - 1"
    by (rule int_div_pos_eq) (use assms in simp_all)
  with True show ?thesis by simp
next
  case False
  from assms have "0 \<le> n mod k" "n mod k < k" by simp_all
  with False have r: "0 \<le> n mod k - 1" "n mod k - 1 < k" by simp_all
  from mult_div_mod_eq [of k n] have "n - 1 = k * (n div k) + (n mod k - 1)" by simp
  then have "(n - 1) div k = n div k"
    using r by (rule int_div_pos_eq)
  with False show ?thesis by simp
qed

lemma mod_400_100: "(n::int) mod 400 = 0 \<Longrightarrow> n mod 100 = 0"
  using dvd_trans [of 100 400 n] by (simp add: mod_eq_0_iff_dvd)

lemma mod_100_4: "(n::int) mod 100 = 0 \<Longrightarrow> n mod 4 = 0"
  using dvd_trans [of 4 100 n] by (simp add: mod_eq_0_iff_dvd)

lemma leap_days:
  fixes y a b c :: int
  assumes "a = (if y mod 4 = 0 then 1 else 0)"
    and "b = (if y mod 100 = 0 then 1 else 0)"
    and "c = (if y mod 400 = 0 then 1 else 0)"
  shows "(if is_leap y then 366 else 365) = 365 + a - b + c"
proof (cases "y mod 4 = 0")
  case n4: False
  have n100: "y mod 100 \<noteq> 0"
  proof
    assume "y mod 100 = 0"
    then have "y mod 4 = 0" by (rule mod_100_4)
    with n4 show False by (rule notE)
  qed
  have n400: "y mod 400 \<noteq> 0"
  proof
    assume "y mod 400 = 0"
    then have "y mod 100 = 0" by (rule mod_400_100)
    with n100 show False by (rule notE)
  qed
  show ?thesis unfolding is_leap_def assms by (simp add: n4 n100 n400)
next
  case y4: True
  show ?thesis
  proof (cases "y mod 100 = 0")
    case n100: False
    have n400: "y mod 400 \<noteq> 0"
    proof
      assume "y mod 400 = 0"
      then have "y mod 100 = 0" by (rule mod_400_100)
      with n100 show False by (rule notE)
    qed
    show ?thesis unfolding is_leap_def assms by (simp add: y4 n100 n400)
  next
    case y100: True
    show ?thesis
    proof (cases "y mod 400 = 0")
      case y400: True
      show ?thesis unfolding is_leap_def assms by (simp add: y4 y100 y400)
    next
      case n400: False
      show ?thesis unfolding is_leap_def assms by (simp add: y4 y100 n400)
    qed
  qed
qed

lemma days_before_year_step:
  "days_before_year y = days_before_year (y - 1) + (if is_leap (y - 1) then 366 else 365)"
proof -
  define a b c :: int where "a = (if (y - 1) mod 4 = 0 then 1 else 0)"
    and "b = (if (y - 1) mod 100 = 0 then 1 else 0)"
    and "c = (if (y - 1) mod 400 = 0 then 1 else 0)"
  define q4 q100 q400 where "q4 = (y - 2) div 4" and "q100 = (y - 2) div 100"
    and "q400 = (y - 2) div 400"
  have e: "y - 1 - 1 = y - 2" by simp
  have d4: "(y - 1) div 4 = q4 + a"
    using div_step [of 4 "y - 1"] unfolding e a_def q4_def by simp
  have d100: "(y - 1) div 100 = q100 + b"
    using div_step [of 100 "y - 1"] unfolding e b_def q100_def by simp
  have d400: "(y - 1) div 400 = q400 + c"
    using div_step [of 400 "y - 1"] unfolding e c_def q400_def by simp
  have l: "(if is_leap (y - 1) then 366 else 365) = 365 + a - b + c"
    by (rule leap_days [OF a_def b_def c_def])
  have 1: "days_before_year y = 365 * (y - 1) + (q4 + a) - (q100 + b) + (q400 + c)"
    unfolding days_before_year_def d4 d100 d400 ..
  have 2: "days_before_year (y - 1) = 365 * (y - 2) + q4 - q100 + q400"
    unfolding days_before_year_def e q4_def q100_def q400_def ..
  show ?thesis unfolding 1 2 l by (simp add: algebra_simps)
qed


lemma days_before_month_step:
  assumes "2 \<le> m" "m \<le> 12"
  shows "days_before_month y m = days_before_month y (m - 1) + days_in_month y (m - 1)"
proof -
  from assms have "m = 2 \<or> m = 3 \<or> m = 4 \<or> m = 5 \<or> m = 6 \<or> m = 7 \<or> m = 8 \<or> m = 9 \<or>
    m = 10 \<or> m = 11 \<or> m = 12" by arith
  then show ?thesis
    by (elim disjE) (simp_all add: days_before_month_def days_in_month_def)
qed

lemma prev_day_days:
  assumes "valid_date y m d" "prev_day (y, m, d) = (y', m', d')"
  shows "valid_date y' m' d' \<and> days_from_civil y' m' d' = days_from_civil y m d - 1"
proof -
  note b = valid_date_bounds [OF assms(1)]
  consider "1 < d" | "d = 1" "1 < m" | "d = 1" "m = 1" using b by linarith
  then show ?thesis
  proof cases
    case 1
    with assms(2) have "y' = y" "m' = m" "d' = d - 1" by (auto simp: prev_day_def)
    with assms(1) 1 show ?thesis by (simp add: valid_date_def days_from_civil_def)
  next
    case 2
    with assms(2) have e: "y' = y" "m' = m - 1" "d' = days_in_month y (m - 1)"
      by (auto simp: prev_day_def)
    from 2 b have m: "2 \<le> m" "m \<le> 12" by auto
    have "1 \<le> days_in_month y (m - 1)" by (simp add: days_in_month_def)
    with e m have "valid_date y' m' d'" by (simp add: valid_date_def)
    moreover from e 2 days_before_month_step [OF m, of y]
    have "days_from_civil y' m' d' = days_from_civil y m d - 1"
      by (simp add: days_from_civil_def)
    ultimately show ?thesis by simp
  next
    case 3
    with assms(2) have e: "y' = y - 1" "m' = 12" "d' = 31" by (auto simp: prev_day_def)
    then have "valid_date y' m' d'" by (simp add: valid_date_def days_in_month_def)
    moreover from e 3 days_before_year_step [of y]
    have "days_from_civil y' m' d' = days_from_civil y m d - 1"
      by (simp add: days_from_civil_def days_before_month_def)
    ultimately show ?thesis by simp
  qed
qed

lemma ts_of_civil_prev_day:
  assumes "valid_date y m d" "prev_day (y, m, d) = (y', m', d')"
  shows "ts_of_civil y' m' d' 0 0 0 = ts_of_civil y m d 0 0 0 - ns_per_day"
proof -
  from prev_day_days [OF assms]
  have "days_from_civil y' m' d' = days_from_civil y m d - 1" by simp
  then show ?thesis by (simp add: ts_of_civil_def left_diff_distrib)
qed

text \<open>
  Counterexample to claim C3 as stated (for every valid date \<open>D\<close> the before-marker
  followed by \<open>D\<close> resolves to the day before \<open>D\<close>): 3000-01-01 is a date of the
  calendar that a \<open>Timestamp\<close> cannot hold, and 1677-09-22 is one that it can hold while
  it cannot hold the day before.  For both, \<open>parse_date\<close> returns no date: line 51
  raises \<open>OutOfBoundsDatetime\<close>.
\<close>

theorem before_marker_out_of_range:
  "valid_date 3000 1 1 \<and> prev_day (3000, 1, 1) = (2999, 12, 31) \<and>
   parse_date 0 (Str (kw_ijeon @ cps ''3000-01-01'')) = Inl OutOfBoundsDatetime \<and>
   valid_date 1677 9 22 \<and> prev_day (1677, 9, 22) = (1677, 9, 21) \<and>
   parse_date 0 (Str (kw_ijeon @ cps ''1677-09-22'')) = Inl OutOfBoundsDatetime"
  by (simp add: parse_date_def to_datetime_def prev_day_def string_defs calendar_defs)

text \<open>
  Claim C3, amended: for a date of the calendar written \<open>YYYY-MM-DD\<close> after the
  before-marker, \<open>parse_date\<close> returns midnight of the calendar day before it, whenever a
  \<open>Timestamp\<close> can hold both days; \<open>prev_day\<close> steps back over the ends of months and
  years.
\<close>

theorem before_marker_subtracts_one_day:
  assumes "1 \<le> y" "y \<le> 9999" "valid_date y m d" "prev_day (y, m, d) = (y', m', d')"
    and "in_bounds (ts_of_civil y m d 0 0 0)" "in_bounds (ts_of_civil y' m' d' 0 0 0)"
  shows "valid_date y' m' d' \<and>
    parse_date now (Str (kw_ijeon @ date_text 45 y m d))
      = Inr (Timestamp (ts_of_civil y' m' d' 0 0 0))"
proof -
  let ?s = "kw_ijeon @ date_text 45 y m d"
  from assms have y0: "0 \<le> y" by simp
  have "strip ?s = ?s"
    using date_text_ends(2) [OF y0 assms(2,3), of 45]
    by (intro strip_id) (simp_all add: kw_ijeon_def is_space_def date_text_def pad2_def)
  moreover have "?s \<notin> set sentinels"
    by (simp add: sentinels_def kw_ijeon_def)
  moreover have "contains kw_ijeon ?s"
    by (simp add: kw_ijeon_def)
  moreover note re_search_before_date [OF y0 assms(2,3)]
  ultimately have "parse_date now (Str ?s) =
    (case to_datetime (date_text 45 y m d) of
       Inl e \<Rightarrow> Inl e
     | Inr dt \<Rightarrow> add_timedelta dt (- ns_per_day))"
    by (simp add: parse_date_def)
  also have "\<dots> = add_timedelta (Timestamp (ts_of_civil y m d 0 0 0)) (- ns_per_day)"
    by (simp add: to_datetime_date_text [OF assms(1,2,3,5)])
  also have "\<dots> = Inr (Timestamp (ts_of_civil y' m' d' 0 0 0))"
    using assms(6) by (simp add: add_timedelta_def ts_of_civil_prev_day [OF assms(3,4)])
  finally show ?thesis using prev_day_days [OF assms(3,4)] by simp
qed

text \<open>
  The day before 2024-03-01 is 2024-02-29, and the day before 2024-01-01 is 2023-12-31.
\<close>

theorem before_marker_subtracts_one_day_witness:
  "parse_date 0 (Str (kw_ijeon @ cps ''2024-03-01''))
     = Inr (Timestamp (ts_of_civil 2024 2 29 0 0 0)) \<and>
   parse_date 0 (Str (kw_ijeon @ cps ''2024-01-01''))
     = Inr (Timestamp (ts_of_civil 2023 12 31 0 0 0))"
  using before_marker_subtracts_one_day [of 2024 3 1 2024 2 29 0]
    before_marker_subtracts_one_day [of 2024 1 1 2023 12 31 0]
  by (simp add: prev_day_def date_text_def pad4_def pad2_def digit_char_def cps_def calendar_defs)

section \<open>Morning and afternoon times\<close>

lemma hour_of_ts_of_civil:
  assumes "0 \<le> hh" "hh < 24" "0 \<le> mi" "mi \<le> 59" "0 \<le> ss" "ss \<le> 59"
  shows "hour_of (ts_of_civil y m d hh mi ss) = hh"
proof -
  define D where "D = days_from_civil y m d"
  define r where "r = mi * 60000000000 + ss * 1000000000"
  from assms have r: "0 \<le> r" "r < 3600000000000" by (simp_all add: r_def)
  have "ts_of_civil y m d hh mi ss = 3600000000000 * (24 * D + hh) + r"
    by (simp add: ts_of_civil_def D_def r_def ns_per_day_def ns_per_hour_def ns_per_minute_def
        ns_per_second_def algebra_simps)
  then have "ts_of_civil y m d hh mi ss div 3600000000000 = 24 * D + hh"
    using r by (rule int_div_pos_eq)
  moreover have "(24 * D + hh) mod 24 = hh"
    using refl assms(1,2) by (rule int_mod_pos_eq)
  ultimately show ?thesis
    by (simp add: hour_of_def ns_per_hour_def ns_per_minute_def ns_per_second_def)
qed

lemma low_head_not_sentinel:
  "s \<noteq> [] \<Longrightarrow> hd s < 128 \<Longrightarrow> s \<notin> set sentinels"
  by (auto simp: sentinels_def)

lemma tokenize_12_hour:
  "tokenize ''%Y.%m.%d %I:%M'' = Some [DY, Lit 46, Dm, Lit 46, Dd, Ws, DI, Lit 58, DM]"
  by (simp add: is_space_def)

lemma to_datetime_format_12_hour:
  assumes "0 \<le> y" "y \<le> 9999" "valid_date y m d" "1 \<le> hh" "hh \<le> 12" "0 \<le> mi" "mi \<le> 59"
  shows "to_datetime_format now ''%Y.%m.%d %I:%M''
      (date_text 46 y m d @ 32 # 32 # pad2 hh @ 58 # pad2 mi)
    = make_timestamp y m d (if hh = 12 then 0 else hh) mi 0"
proof -
  let ?c = "no_captures\<lparr>cap_Y := Some y, cap_m := Some m, cap_d := Some d,
    cap_I := Some hh, cap_M := Some mi\<rparr>"
  from assms(4,5) have "\<not> is_space (hd (pad2 hh @ 58 # pad2 mi @ []))"
    by (simp add: pad2_def digit_char_digit pad2_digits)
  then have "first_is (fmt_matches [DY, Lit 46, Dm, Lit 46, Dd, Ws, DI, Lit 58, DM] no_captures
      (date_text 46 y m d @ 32 # 32 # pad2 hh @ 58 # pad2 mi @ [])) (?c, [])"
    by (intro date_text_first step_Ws2 step_DI step_Lit step_DM assms)
      (simp_all add: first_is_def pad2_def)
  then have "to_datetime_format now ''%Y.%m.%d %I:%M''
      (date_text 46 y m d @ 32 # 32 # pad2 hh @ 58 # pad2 mi) = timestamp_of_captures ?c"
    by (intro to_datetime_format_first [OF _ tokenize_12_hour]) (simp_all add: length_date_text)
  also have "\<dots> = make_timestamp y m d (if hh = 12 then 0 else hh) mi 0"
    by (simp add: timestamp_of_captures_def no_captures_def hour_12_def)
  finally show ?thesis .
qed

lemma am_pm_text_reaches_block:
  assumes "0 \<le> y" "y \<le> 9999" "valid_date y m d" "1 \<le> hh" "hh \<le> 12" "0 \<le> mi" "mi \<le> 59"
    and "mk = kw_ojeon \<or> mk = kw_ohu"
  shows "parse_date now (Str (date_text 46 y m d @ [32] @ mk @ [32] @ pad2 hh @ [58] @ pad2 mi))
    = (case parse_am_pm now mk (date_text 46 y m d @ 32 # 32 # pad2 hh @ 58 # pad2 mi) of
         Inr dt \<Rightarrow> Inr dt
       | Inl e \<Rightarrow>
           if is_ValueError e
           then parse_plain now (date_text 46 y m d @ 32 # 32 # pad2 hh @ 58 # pad2 mi)
           else Inl e)"
proof -
  let ?p = "date_text 46 y m d @ [32]" and ?q = "[32] @ pad2 hh @ [58] @ pad2 mi"
  let ?s = "date_text 46 y m d @ [32] @ mk @ [32] @ pad2 hh @ [58] @ pad2 mi"
  let ?t = "date_text 46 y m d @ 32 # 32 # pad2 hh @ 58 # pad2 mi"
  have s: "?s = ?p @ mk @ ?q" and t: "?p @ ?q = ?t" by simp_all
  from assms have hm: "0 \<le> hh" "hh \<le> 99" "0 \<le> mi" "mi \<le> 99" by simp_all
  have ap: "ascii ?p" using date_text_ascii [OF assms(1-3), of 46] by simp
  have aq: "ascii ?q" using ascii_pad2 [OF hm(1,2)] ascii_pad2 [OF hm(3,4)] by simp
  have ends: "\<not> is_space (hd (date_text 46 y m d))" "\<not> is_space (last (pad2 mi))"
    "date_text 46 y m d \<noteq> []" "hd (date_text 46 y m d) < 128"
    using date_text_ends(1) [OF assms(1-3), of 46]
    by (simp_all add: date_text_def pad4_def pad2_def digit_char_digit
        pad4_digits(1-8) [OF assms(1,2)] pad2_digits(1-4) [OF hm(3,4)])
  have 1: "strip ?s = ?s"
    using ends by (intro strip_id) (simp_all add: pad2_def)
  have 2: "(?s \<in> set sentinels) = False"
    using low_head_not_sentinel [of ?s] ends by simp
  from assms(8) have mk: "51060 \<notin> set mk" "54665 \<notin> set mk"
    by (auto simp: kw_ojeon_def kw_ohu_def)
  from ap aq have "51060 \<notin> set ?p" "54665 \<notin> set ?p" "51060 \<notin> set ?q" "54665 \<notin> set ?q"
    by (simp_all add: ascii_not_in)
  with mk have "51060 \<notin> set ?s" "54665 \<notin> set ?s" by simp_all
  then have 3: "contains kw_ijeon ?s = False" "contains kw_haengsa ?s = False"
    by (simp_all add: kw_ijeon_def kw_haengsa_def not_contains_absent)
  have 4: "re_search am_pm_pattern ?s = Some mk"
    unfolding s using ap assms(8) by (rule ascii_am_pm_found)
  have 5: "remove_all mk ?s = ?t"
    unfolding s t [symmetric] using ap aq assms(8) by (rule ascii_remove_marker)
  have 6: "strip ?t = ?t"
    using ends by (intro strip_id) (simp_all add: pad2_def)
  show ?thesis
    by (simp only: parse_date_def cell.case Let_def 1 2 3 4 5 6 if_False option.case)
qed

lemma ts_of_civil_plus_12_hours:
  "ts_of_civil y m d h0 mi 0 + 12 * ns_per_hour = ts_of_civil y m d (h0 + 12) mi 0"
  by (simp add: ts_of_civil_def distrib_right)

lemma parse_am_pm_morning:
  assumes fmt: "to_datetime_format now ''%Y.%m.%d %I:%M'' t = Inr (Timestamp v)"
    and n12: "\<not> hour_is_12 (Timestamp v)"
  shows "parse_am_pm now kw_ojeon t = Inr (Timestamp v)"
  by (simp add: parse_am_pm_def fmt n12)

lemma parse_am_pm_afternoon:
  assumes fmt: "to_datetime_format now ''%Y.%m.%d %I:%M'' t = Inr (Timestamp v)"
    and n12: "\<not> hour_is_12 (Timestamp v)"
    and add: "add_timedelta (Timestamp v) (12 * ns_per_hour) = Inr (Timestamp w)"
  shows "parse_am_pm now kw_ohu t = Inr (Timestamp w)"
proof -
  have ne: "kw_ohu \<noteq> kw_ojeon" by (simp add: kw_ohu_def kw_ojeon_def)
  show ?thesis by (simp add: parse_am_pm_def ne fmt n12 add)
qed

lemma to_datetime_format_12_hour_ok:
  assumes "1 \<le> y" "y \<le> 9999" "valid_date y m d" "1 \<le> hh" "hh \<le> 12" "0 \<le> mi" "mi \<le> 59"
    and "in_bounds (ts_of_civil y m d (if hh = 12 then 0 else hh) mi 0)"
  shows "to_datetime_format now ''%Y.%m.%d %I:%M''
      (date_text 46 y m d @ 32 # 32 # pad2 hh @ 58 # pad2 mi)
    = Inr (Timestamp (ts_of_civil y m d (if hh = 12 then 0 else hh) mi 0))"
proof -
  from assms(1) have y0: "0 \<le> y" by simp
  have "make_timestamp y m d (if hh = 12 then 0 else hh) mi 0
      = Inr (Timestamp (ts_of_civil y m d (if hh = 12 then 0 else hh) mi 0))"
    using assms(1,3,8) by (rule make_timestamp_ok)
  then show ?thesis
    by (simp only: to_datetime_format_12_hour [OF y0 assms(2-7)])
qed

lemma parse_am_pm_text:
  assumes "1 \<le> y" "y \<le> 9999" "valid_date y m d" "1 \<le> hh" "hh \<le> 12" "0 \<le> mi" "mi \<le> 59"
    and "in_bounds (ts_of_civil y m d (if hh = 12 then 0 else hh) mi 0)"
  shows "parse_am_pm now kw_ojeon (date_text 46 y m d @ 32 # 32 # pad2 hh @ 58 # pad2 mi)
      = Inr (Timestamp (ts_of_civil y m d (if hh = 12 then 0 else hh) mi 0))"
    and "in_bounds (ts_of_civil y m d ((if hh = 12 then 0 else hh) + 12) mi 0) \<Longrightarrow>
      parse_am_pm now kw_ohu (date_text 46 y m d @ 32 # 32 # pad2 hh @ 58 # pad2 mi)
      = Inr (Timestamp (ts_of_civil y m d ((if hh = 12 then 0 else hh) + 12) mi 0))"
proof -
  let ?h = "if hh = 12 then 0 else hh"
  from assms(4,5) have h: "0 \<le> ?h" "?h < 24" "?h \<noteq> 12" by simp_all
  note fmt = to_datetime_format_12_hour_ok [OF assms, of now]
  have z: "(0::int) \<le> 0" "(0::int) \<le> 59" by simp_all
  have hr: "hour_of (ts_of_civil y m d ?h mi 0) = ?h"
    by (rule hour_of_ts_of_civil [OF h(1,2) assms(6,7) z])
  have n12: "\<not> hour_is_12 (Timestamp (ts_of_civil y m d ?h mi 0))"
    unfolding hour_is_12_def tstamp.case hr by (rule h(3))
  show "parse_am_pm now kw_ojeon (date_text 46 y m d @ 32 # 32 # pad2 hh @ 58 # pad2 mi)
      = Inr (Timestamp (ts_of_civil y m d ?h mi 0))"
    by (rule parse_am_pm_morning [OF fmt n12])
  show "parse_am_pm now kw_ohu (date_text 46 y m d @ 32 # 32 # pad2 hh @ 58 # pad2 mi)
      = Inr (Timestamp (ts_of_civil y m d (?h + 12) mi 0))"
    if b: "in_bounds (ts_of_civil y m d (?h + 12) mi 0)"
  proof -
    have add: "add_timedelta (Timestamp (ts_of_civil y m d ?h mi 0)) (12 * ns_per_hour)
        = Inr (Timestamp (ts_of_civil y m d (?h + 12) mi 0))"
      unfolding add_timedelta_def tstamp.case ts_of_civil_plus_12_hours using b by simp
    show ?thesis by (rule parse_am_pm_afternoon [OF fmt n12 add])
  qed
qed

lemma parse_date_am_pm_text:
  assumes "1 \<le> y" "y \<le> 9999" "valid_date y m d" "1 \<le> hh" "hh \<le> 12" "0 \<le> mi" "mi \<le> 59"
    and "in_bounds (ts_of_civil y m d (if hh = 12 then 0 else hh) mi 0)"
  shows "parse_date now (Str (date_text 46 y m d @ [32] @ kw_ojeon @ [32] @ pad2 hh @ [58] @ pad2 mi))
      = Inr (Timestamp (ts_of_civil y m d (if hh = 12 then 0 else hh) mi 0))"
    and "in_bounds (ts_of_civil y m d ((if hh = 12 then 0 else hh) + 12) mi 0) \<Longrightarrow>
      parse_date now (Str (date_text 46 y m d @ [32] @ kw_ohu @ [32] @ pad2 hh @ [58] @ pad2 mi))
      = Inr (Timestamp (ts_of_civil y m d ((if hh = 12 then 0 else hh) + 12) mi 0))"
proof -
  from assms(1) have y0: "0 \<le> y" by simp
  show "parse_date now (Str (date_text 46 y m d @ [32] @ kw_ojeon @ [32] @ pad2 hh @ [58] @ pad2 mi))
      = Inr (Timestamp (ts_of_civil y m d (if hh = 12 then 0 else hh) mi 0))"
    unfolding am_pm_text_reaches_block [OF y0 assms(2-7) disjI1 [OF refl]]
      parse_am_pm_text(1) [OF assms]
    by simp
  show "parse_date now (Str (date_text 46 y m d @ [32] @ kw_ohu @ [32] @ pad2 hh @ [58] @ pad2 mi))
      = Inr (Timestamp (ts_of_civil y m d ((if hh = 12 then 0 else hh) + 12) mi 0))"
    if b: "in_bounds (ts_of_civil y m d ((if hh = 12 then 0 else hh) + 12) mi 0)"
    unfolding am_pm_text_reaches_block [OF y0 assms(2-7) disjI2 [OF refl]]
      parse_am_pm_text(2) [OF assms b]
    by simp
qed

text \<open>
  Counterexample to claim C2 as stated (for every valid date the marker and the time
  give the corrected hour): 3000.03.15 is a date of the calendar that a \<open>Timestamp\<close>
  cannot hold.  With the morning marker and 12:30, and with the afternoon marker and
  01:30, the 12-hour format raises \<open>OutOfBoundsDatetime\<close>, the \<open>except ValueError\<close> of
  line 72 catches it, no format of the list gives a date, and \<open>parse_date\<close> returns
  \<open>NaT\<close>.
\<close>

theorem meridiem_out_of_range:
  "valid_date 3000 3 15 \<and>
   parse_date 0 (Str (cps ''3000.03.15 '' @ kw_ojeon @ cps '' 12:30'')) = Inr NaT \<and>
   parse_date 0 (Str (cps ''3000.03.15 '' @ kw_ohu @ cps '' 01:30'')) = Inr NaT"
  by (simp add: parse_defs date_formats_def string_defs match_defs calendar_defs)

text \<open>
  Claim C2, amended: for a date \<open>Y.M.D\<close> of the calendar and minutes \<open>mi\<close>, the morning
  marker with \<open>12:mi\<close> gives hour 0, the afternoon marker with \<open>12:mi\<close> gives hour 12, and
  the afternoon marker with \<open>hh:mi\<close> for \<open>hh\<close> from 01 to 11 gives hour \<open>hh + 12\<close>, on the
  same date and minute, whenever a \<open>Timestamp\<close> can hold both the time that the 12-hour
  format reads (12 read as 0) and the corrected time.
\<close>

theorem meridiem_correction:
  assumes "1 \<le> y" "y \<le> 9999" "valid_date y m d" "0 \<le> mi" "mi \<le> 59"
  shows
    "(in_bounds (ts_of_civil y m d 0 mi 0) \<longrightarrow>
        parse_date now (Str (date_text 46 y m d @ cps '' '' @ kw_ojeon @ cps '' 12:'' @ pad2 mi))
          = Inr (Timestamp (ts_of_civil y m d 0 mi 0))) \<and>
     hour_of (ts_of_civil y m d 0 mi 0) = 0 \<and>
     (in_bounds (ts_of_civil y m d 0 mi 0) \<and> in_bounds (ts_of_civil y m d 12 mi 0) \<longrightarrow>
        parse_date now (Str (date_text 46 y m d @ cps '' '' @ kw_ohu @ cps '' 12:'' @ pad2 mi))
          = Inr (Timestamp (ts_of_civil y m d 12 mi 0))) \<and>
     hour_of (ts_of_civil y m d 12 mi 0) = 12 \<and>
     (1 \<le> hh \<and> hh \<le> 11 \<and>
      in_bounds (ts_of_civil y m d hh mi 0) \<and> in_bounds (ts_of_civil y m d (hh + 12) mi 0) \<longrightarrow>
        parse_date now
          (Str (date_text 46 y m d @ cps '' '' @ kw_ohu @ cps '' '' @ pad2 hh @ cps '':'' @ pad2 mi))
          = Inr (Timestamp (ts_of_civil y m d (hh + 12) mi 0)) \<and>
        hour_of (ts_of_civil y m d (hh + 12) mi 0) = hh + 12)"
proof -
  have e: "cps '' 12:'' = [32] @ pad2 12 @ [58]" "cps '' '' = [32]" "cps '':'' = [58]"
    by (simp_all add: cps_def pad2_def digit_char_def)
  have z: "(0::int) \<le> 0" "(0::int) \<le> 59" "(1::int) \<le> 12" "(12::int) \<le> 12" by simp_all
  have 1: "parse_date now (Str (date_text 46 y m d @ cps '' '' @ kw_ojeon @ cps '' 12:'' @ pad2 mi))
       = Inr (Timestamp (ts_of_civil y m d 0 mi 0))"
    if b: "in_bounds (ts_of_civil y m d 0 mi 0)"
  proof -
    from b have b': "in_bounds (ts_of_civil y m d (if (12::int) = 12 then 0 else 12) mi 0)"
      by simp
    note am = parse_date_am_pm_text(1) [OF assms(1-3) z(3,4) assms(4,5) b', of now]
    show ?thesis unfolding e using am by simp
  qed
  have 2: "parse_date now (Str (date_text 46 y m d @ cps '' '' @ kw_ohu @ cps '' 12:'' @ pad2 mi))
       = Inr (Timestamp (ts_of_civil y m d 12 mi 0))"
    if b: "in_bounds (ts_of_civil y m d 0 mi 0)" "in_bounds (ts_of_civil y m d 12 mi 0)"
  proof -
    from b have b': "in_bounds (ts_of_civil y m d (if (12::int) = 12 then 0 else 12) mi 0)"
      "in_bounds (ts_of_civil y m d ((if (12::int) = 12 then 0 else 12) + 12) mi 0)"
      by simp_all
    note pm = parse_date_am_pm_text(2) [OF assms(1-3) z(3,4) assms(4,5) b', of now]
    show ?thesis unfolding e using pm by simp
  qed
  have h: "hour_of (ts_of_civil y m d 0 mi 0) = 0" "hour_of (ts_of_civil y m d 12 mi 0) = 12"
    by (rule hour_of_ts_of_civil [OF _ _ assms(4,5) z(1,2)]; simp)+
  have 3: "parse_date now
          (Str (date_text 46 y m d @ cps '' '' @ kw_ohu @ cps '' '' @ pad2 hh @ cps '':'' @ pad2 mi))
          = Inr (Timestamp (ts_of_civil y m d (hh + 12) mi 0)) \<and>
        hour_of (ts_of_civil y m d (hh + 12) mi 0) = hh + 12"
    if hh: "1 \<le> hh" "hh \<le> 11"
      and b: "in_bounds (ts_of_civil y m d hh mi 0)" "in_bounds (ts_of_civil y m d (hh + 12) mi 0)"
  proof -
    from hh have hh12: "hh \<le> 12" "hh \<noteq> 12" "0 \<le> hh + 12" "hh + 12 < 24" by simp_all
    from b hh12(2) have b': "in_bounds (ts_of_civil y m d (if hh = 12 then 0 else hh) mi 0)"
      "in_bounds (ts_of_civil y m d ((if hh = 12 then 0 else hh) + 12) mi 0)"
      by simp_all
    from parse_date_am_pm_text(2) [OF assms(1-3) hh(1) hh12(1) assms(4,5) b', of now] hh12(2)
    have "parse_date now
          (Str (date_text 46 y m d @ cps '' '' @ kw_ohu @ cps '' '' @ pad2 hh @ cps '':'' @ pad2 mi))
          = Inr (Timestamp (ts_of_civil y m d (hh + 12) mi 0))"
      unfolding e by simp
    moreover have "hour_of (ts_of_civil y m d (hh + 12) mi 0) = hh + 12"
      by (rule hour_of_ts_of_civil [OF hh12(3,4) assms(4,5) z(1,2)])
    ultimately show ?thesis by (rule conjI)
  qed
  from 1 2 h 3 show ?thesis by blast
qed

text \<open>
  The three examples of the specification: 2024.03.15 with the morning marker and 12:30
  is 00:30; with the afternoon marker and 12:30 it is 12:30, and with 01:30 it is 13:30.
\<close>

theorem meridiem_correction_witness:
  "parse_date 0 (Str (cps ''2024.03.15 '' @ kw_ojeon @ cps '' 12:30''))
     = Inr (Timestamp (ts_of_civil 2024 3 15 0 30 0)) \<and>
   parse_date 0 (Str (cps ''2024.03.15 '' @ kw_ohu @ cps '' 12:30''))
     = Inr (Timestamp (ts_of_civil 2024 3 15 12 30 0)) \<and>
   parse_date 0 (Str (cps ''2024.03.15 '' @ kw_ohu @ cps '' 01:30''))
     = Inr (Timestamp (ts_of_civil 2024 3 15 13 30 0))"
  using meridiem_correction [where y = 2024 and m = 3 and d = 15 and mi = 30 and hh = 1 and now = 0]
  by (simp add: date_text_def pad4_def pad2_def digit_char_def cps_def calendar_defs)

section \<open>Sentinel keywords\<close>

text \<open>
  Counterexample to claim C4 as stated (a sentinel keyword anywhere in the cell gives
  \<open>NaT\<close>): line 45 tests membership of the whole stripped string in the list of keywords.
  The cell made of the third keyword, a space, the before-marker and \<open>2024-03-15\<close> contains
  a keyword, is not equal to one, and is resolved by the before-marker rule to
  2024-03-14.
\<close>

theorem sentinel_substring_counterexample:
  "[0xC2E4, 0xD589, 0xC911] \<in> set sentinels \<and>
   contains [0xC2E4, 0xD589, 0xC911]
     ([0xC2E4, 0xD589, 0xC911] @ cps '' '' @ kw_ijeon @ cps '' 2024-03-15'') \<and>
   parse_date 0 (Str ([0xC2E4, 0xD589, 0xC911] @ cps '' '' @ kw_ijeon @ cps '' 2024-03-15''))
     = Inr (Timestamp (ts_of_civil 2024 3 14 0 0 0))"
  by (simp add: parse_date_def to_datetime_def string_defs calendar_defs)

text \<open>
  A character that is neither a digit, nor white space, nor below 256 cannot be taken by
  any directive or literal of a format, so no format parses a text that holds one.  Each
  sentinel keyword begins with such a character.
\<close>

lemma spaces_consumes:
  "r \<in> set (spaces s) \<Longrightarrow> \<exists>p. s = p @ r \<and> list_all plain p"
proof (induction s)
  case Nil
  then show ?case by simp
next
  case (Cons c cs)
  from Cons.prems have sp: "is_space c" and "r \<in> set (spaces cs) \<or> r = cs"
    by (auto split: if_splits)
  then show ?case
  proof (elim disjE)
    assume "r \<in> set (spaces cs)"
    from Cons.IH [OF this] obtain p where "cs = p @ r" "list_all plain p" by blast
    with sp have "c # cs = (c # p) @ r \<and> list_all plain (c # p)" by (simp add: plain_def)
    then show ?thesis by blast
  next
    assume "r = cs"
    with sp have "c # cs = [c] @ r \<and> list_all plain [c]" by (simp add: plain_def)
    then show ?thesis by blast
  qed
qed

lemma two_chars_consumes:
  assumes "(v, r) \<in> set (two_chars P Q s)" "\<And>a. P a \<Longrightarrow> plain a" "\<And>b. Q b \<Longrightarrow> plain b"
  shows "\<exists>p. s = p @ r \<and> list_all plain p"
proof -
  from assms(1) obtain a b where "s = a # b # r" "P a" "Q b"
    by (auto simp: two_chars_def split: list.splits if_splits)
  with assms(2,3) have "s = [a, b] @ r \<and> list_all plain [a, b]" by simp
  then show ?thesis by blast
qed

lemma one_char_consumes:
  assumes "(v, r) \<in> set (one_char P s)" "\<And>a. P a \<Longrightarrow> plain a"
  shows "\<exists>p. s = p @ r \<and> list_all plain p"
proof -
  from assms(1) obtain a where "s = a # r" "P a"
    by (auto simp: one_char_def split: list.splits if_splits)
  with assms(2) have "s = [a] @ r \<and> list_all plain [a]" by simp
  then show ?thesis by blast
qed

lemma four_digits_consumes:
  assumes "(v, r) \<in> set (four_digits s)"
  shows "\<exists>p. s = p @ r \<and> list_all plain p"
proof -
  from assms obtain a b c d where "s = a # b # c # d # r"
    "is_digit a" "is_digit b" "is_digit c" "is_digit d"
    by (auto simp: four_digits_def split: list.splits if_splits)
  then have "s = [a, b, c, d] @ r \<and> list_all plain [a, b, c, d]" by (simp add: plain_def)
  then show ?thesis by blast
qed

lemma plain_cases:
  "is_digit c \<Longrightarrow> plain c" "in_range lo hi c \<Longrightarrow> hi < 256 \<Longrightarrow> plain c"
  "c < 256 \<Longrightarrow> plain c"
  by (auto simp: plain_def in_range_def)

lemma alts_consumes:
  assumes "(v, r) \<in> set (alts t s)" "\<And>k. t = Lit k \<Longrightarrow> k < 256"
  shows "\<exists>p. s = p @ r \<and> list_all plain p"
proof (cases t)
  case DY
  with assms(1) show ?thesis by (auto intro: four_digits_consumes)
next
  case Dm
  with assms(1) show ?thesis
    by (auto elim!: two_chars_consumes one_char_consumes simp: plain_cases)
next
  case Dd
  with assms(1) consider
    "(v, r) \<in> set (two_chars (\<lambda>c. c = 51) (in_range 48 49) s)"
    | "(v, r) \<in> set (two_chars (in_range 49 50) is_digit s)"
    | "(v, r) \<in> set (two_chars (\<lambda>c. c = 48) (in_range 49 57) s)"
    | "(v, r) \<in> set (one_char (in_range 49 57) s)"
    | s' where "s = 32 # s'" "(v, r) \<in> set (one_char (in_range 49 57) s')"
    by (auto split: list.splits if_splits)
  then show ?thesis
  proof cases
    case 5
    from one_char_consumes [OF 5(2)] obtain p where "s' = p @ r" "list_all plain p"
      by (auto simp: plain_cases)
    with 5(1) have "s = (32 # p) @ r \<and> list_all plain (32 # p)" by (simp add: plain_def)
    then show ?thesis by blast
  qed (auto elim!: two_chars_consumes one_char_consumes simp: plain_cases)
next
  case DH
  with assms(1) show ?thesis
    by (auto elim!: two_chars_consumes one_char_consumes simp: plain_cases)
next
  case DI
  with assms(1) show ?thesis
    by (auto elim!: two_chars_consumes one_char_consumes simp: plain_cases)
next
  case DM
  with assms(1) show ?thesis
    by (auto elim!: two_chars_consumes one_char_consumes simp: plain_cases)
next
  case DS
  with assms(1) show ?thesis
    by (auto elim!: two_chars_consumes one_char_consumes simp: plain_cases)
next
  case Dp
  with assms(1) obtain a b where "s = a # b # r" "a < 256" "b < 256"
    by (auto split: list.splits if_splits)
  then have "s = [a, b] @ r \<and> list_all plain [a, b]" by (simp add: plain_def)
  then show ?thesis by blast
next
  case Ws
  with assms(1) show ?thesis by (auto intro: spaces_consumes)
next
  case (Lit k)
  with assms(1) have "s = k # r" by (auto split: list.splits if_splits)
  with assms(2) [OF Lit] have "s = [k] @ r \<and> list_all plain [k]" by (simp add: plain_def)
  then show ?thesis by blast
qed

lemma fmt_matches_consumes:
  assumes "(c', r) \<in> set (fmt_matches ts c s)" "\<And>k. Lit k \<in> set ts \<Longrightarrow> k < 256"
  shows "\<exists>p. s = p @ r \<and> list_all plain p"
  using assms
proof (induction ts arbitrary: c s)
  case Nil
  then have "s = [] @ r \<and> list_all plain []" by simp
  then show ?case by blast
next
  case (Cons t ts)
  from Cons.prems(1) obtain v r1 where a: "(v, r1) \<in> set (alts t s)"
    and m: "(c', r) \<in> set (fmt_matches ts (capture t v c) r1)"
    by auto
  from alts_consumes [OF a] Cons.prems(2) obtain p1 where p1: "s = p1 @ r1" "list_all plain p1"
    by auto
  from Cons.IH [OF m] Cons.prems(2) obtain p2 where p2: "r1 = p2 @ r" "list_all plain p2"
    by auto
  from p1 p2 have "s = (p1 @ p2) @ r \<and> list_all plain (p1 @ p2)" by simp
  then show ?case by blast
qed

lemma tokenize_lits:
  "tokenize fmt = Some ts \<Longrightarrow> Lit k \<in> set ts \<Longrightarrow> k < 256"
  by (induction fmt arbitrary: ts rule: tokenize.induct)
    (auto split: if_splits option.splits)

lemma to_datetime_format_not_plain:
  assumes "x \<in> set s" "\<not> plain x"
  shows "to_datetime_format now fmt s = Inl ValueError"
proof -
  from assms have x: "256 \<le> x" by (simp add: plain_def)
  have "\<And>t. t \<in> set (cps ''now'' # cps ''today'' # [] # nat_strings) \<Longrightarrow> \<forall>c \<in> set t. c < 256"
    by (auto simp: nat_strings_def cps_def)
  with assms(1) x have ns: "s \<noteq> []" "s \<notin> set nat_strings" "s \<noteq> cps ''now''" "s \<noteq> cps ''today''"
    by fastforce+
  show ?thesis
  proof (cases "tokenize fmt")
    case None
    with ns show ?thesis by (simp add: to_datetime_format_def)
  next
    case (Some ts)
    have "r \<noteq> []" if "(c, r) \<in> set (fmt_matches ts no_captures s)" for c r
    proof
      assume "r = []"
      with fmt_matches_consumes [OF that] tokenize_lits [OF Some]
      have "list_all plain s" by auto
      with assms show False by (simp add: list_all_iff)
    qed
    then have "case fmt_matches ts no_captures s of
        [] \<Rightarrow> True | (c, r) # _ \<Rightarrow> r \<noteq> []"
      by (cases "fmt_matches ts no_captures s") auto
    with ns Some show ?thesis
      by (auto simp: to_datetime_format_def split: list.splits)
  qed
qed

lemma try_formats_not_plain:
  "x \<in> set s \<Longrightarrow> \<not> plain x \<Longrightarrow> try_formats now fmts s = Inr NaT"
  by (induction fmts) (simp_all add: to_datetime_format_not_plain)

lemma not_bare_not_plain:
  assumes "x \<in> set s" "\<not> plain x"
  shows "\<not> year_only s" "\<not> year_month s"
proof -
  from assms(2) have x: "\<not> is_digit x" "x \<noteq> 10" "x \<noteq> 46" by (auto simp: plain_def)
  show "\<not> year_only s"
    using assms(1) x by (auto simp: year_only_def split: list.splits)
  show "\<not> year_month s"
    using assms(1) x by (auto simp: year_month_def split: list.splits)
qed

lemma parse_plain_not_plain:
  "x \<in> set s \<Longrightarrow> \<not> plain x \<Longrightarrow> parse_plain now s = Inr NaT"
  by (simp add: parse_plain_def not_bare_not_plain try_formats_not_plain)

lemma parse_am_pm_not_plain:
  assumes "x \<in> set s" "\<not> plain x" "mk = kw_ojeon \<or> mk = kw_ohu"
  shows "parse_am_pm now mk s = Inl ValueError"
  using assms(3) by (auto simp: parse_am_pm_def to_datetime_format_not_plain [OF assms(1,2)])

lemma in_set_dropWhile: "x \<in> set xs \<Longrightarrow> \<not> P x \<Longrightarrow> x \<in> set (dropWhile P xs)"
  by (induction xs) auto

lemma in_set_strip: "x \<in> set s \<Longrightarrow> \<not> is_space x \<Longrightarrow> x \<in> set (strip s)"
  by (simp add: strip_def in_set_dropWhile)

lemma in_set_remove_all:
  "x \<in> set s \<Longrightarrow> x \<notin> set old \<Longrightarrow> x \<in> set (remove_all old s)"
proof (induction old s rule: remove_all.induct)
  case (1 old)
  then show ?case by simp
next
  case (2 old c cs)
  show ?case
  proof (cases "old \<noteq> [] \<and> prefix old (c # cs)")
    case True
    then obtain zs where zs: "c # cs = old @ zs" by (auto simp: prefix_def)
    with True have "drop (length old - 1) cs = zs"
      by (cases old) auto
    moreover from zs "2.prems" have "x \<in> set zs" by (metis Un_iff set_append)
    ultimately show ?thesis using True "2.IH"(1) "2.prems"(2) by simp
  next
    case False
    with "2.prems" "2.IH"(2) show ?thesis by auto
  qed
qed

lemma contains_set: "contains k s \<Longrightarrow> set k \<subseteq> set s"
proof (induction s)
  case Nil
  then show ?case by simp
next
  case (Cons c cs)
  from Cons.prems have "prefix k (c # cs) \<or> contains k cs" by simp
  then show ?case
  proof
    assume "prefix k (c # cs)"
    then show ?thesis by (rule set_mono_prefix)
  next
    assume "contains k cs"
    then have "set k \<subseteq> set cs" by (rule Cons.IH)
    then show ?thesis by auto
  qed
qed

lemma sentinel_hard_char:
  assumes "k \<in> set sentinels"
  shows "\<exists>x \<in> set k. \<not> plain x \<and> \<not> is_space x \<and> x \<notin> set kw_ojeon \<and> x \<notin> set kw_ohu"
proof -
  have h: "\<not> plain 0xC0AC" "\<not> plain 0xACAC" "\<not> plain 0xC2E4"
    by (simp_all add: plain_def not_digit_hangul is_space_def)
  from assms consider "k = [0xC0AC, 0xC804, 0xADDC, 0xACA9]"
    | "k = [0xACAC, 0xC801, 0xC11C, 0x20, 0xC694, 0xCCAD]" | "k = [0xC2E4, 0xD589, 0xC911]"
    by (auto simp: sentinels_def)
  then show ?thesis
  proof cases
    case 1
    with h(1) show ?thesis
      by (intro bexI [of _ "0xC0AC"]) (simp_all add: is_space_def kw_ojeon_def kw_ohu_def)
  next
    case 2
    with h(2) show ?thesis
      by (intro bexI [of _ "0xACAC"]) (simp_all add: is_space_def kw_ojeon_def kw_ohu_def)
  next
    case 3
    with h(3) show ?thesis
      by (intro bexI [of _ "0xC2E4"]) (simp_all add: is_space_def kw_ojeon_def kw_ohu_def)
  qed
qed

lemma to_datetime_not_NaT: "to_datetime t \<noteq> Inr NaT"
  by (simp add: to_datetime_def Let_def split: list.splits)

lemma add_timedelta_not_NaT: "dt \<noteq> NaT \<Longrightarrow> add_timedelta dt delta \<noteq> Inr NaT"
  by (cases dt) (simp_all add: add_timedelta_def)

lemma before_rule_not_NaT:
  "(case to_datetime t of Inl e \<Rightarrow> Inl e | Inr dt \<Rightarrow> add_timedelta dt delta) \<noteq> Inr NaT"
  using to_datetime_not_NaT [of t]
  by (cases "to_datetime t") (simp_all add: add_timedelta_not_NaT)

lemma sentinel_no_marker:
  "t \<in> set sentinels \<Longrightarrow> \<not> contains kw_ijeon t \<and> \<not> contains kw_haengsa t"
  by (auto simp: sentinels_def kw_ijeon_def kw_haengsa_def)

lemma sentinel_substring_fall_through:
  assumes "k \<in> set sentinels" "contains k s"
    and "\<not> contains kw_ijeon (strip s) \<or> re_search (date_pattern 45) (strip s) = None"
    and "\<not> contains kw_haengsa (strip s) \<or> re_search (date_pattern 46) (strip s) = None"
  shows "parse_date now (Str s) = Inr NaT"
proof -
  note r3 = assms(3) and r4 = assms(4)
  from sentinel_hard_char [OF assms(1)] contains_set [OF assms(2)] obtain x where
    x: "x \<in> set s" "\<not> plain x" "\<not> is_space x" "x \<notin> set kw_ojeon" "x \<notin> set kw_ohu"
    by blast
  let ?ds = "strip s"
  from x have xd: "x \<in> set ?ds" by (simp add: in_set_strip)
  show "parse_date now (Str s) = Inr NaT"
  proof (cases "re_search am_pm_pattern ?ds")
    case None
    with r3 r4 show ?thesis
      by (auto simp: parse_date_def Let_def parse_plain_not_plain [OF xd x(2)])
  next
    case (Some mk)
    then have mk: "mk = kw_ojeon \<or> mk = kw_ohu" by (rule re_search_am_pm_cases)
    with x have "x \<notin> set mk" by auto
    with xd have "x \<in> set (remove_all mk ?ds)" by (rule in_set_remove_all)
    from this x(3) have xt: "x \<in> set (strip (remove_all mk ?ds))" by (rule in_set_strip)
    note a = parse_am_pm_not_plain [OF xt x(2) mk, of now]
      and p = parse_plain_not_plain [OF xt x(2), of now]
    from r3 r4 Some show ?thesis
      by (auto simp: parse_date_def Let_def a p)
  qed
qed

lemma marker_rule_not_NaT:
  assumes "strip s \<notin> set sentinels"
    and "(contains kw_ijeon (strip s) \<and> re_search (date_pattern 45) (strip s) \<noteq> None) \<or>
      (contains kw_haengsa (strip s) \<and> re_search (date_pattern 46) (strip s) \<noteq> None)"
  shows "parse_date now (Str s) \<noteq> Inr NaT"
proof (cases "contains kw_ijeon (strip s) \<and> re_search (date_pattern 45) (strip s) \<noteq> None")
  case True
  then obtain dp where "re_search (date_pattern 45) (strip s) = Some dp" by auto
  with True assms(1) show ?thesis
    by (simp add: parse_date_def Let_def before_rule_not_NaT)
next
  case False
  with assms(2) obtain dp where r4: "contains kw_haengsa (strip s)"
    "re_search (date_pattern 46) (strip s) = Some dp" by auto
  from False have r3: "(if contains kw_ijeon (strip s)
      then re_search (date_pattern 45) (strip s) else None) = None"
    by auto
  from assms(1) show ?thesis
    by (simp add: parse_date_def Let_def r3 r4 to_datetime_not_NaT)
qed

text \<open>
  Claim C4, amended: a cell whose text, with surrounding white space removed, is equal
  to a sentinel keyword resolves to \<open>NaT\<close>, before any later rule.  A cell that contains a
  sentinel keyword resolves to \<open>NaT\<close> exactly when neither the before-marker rule applies
  (the text contains the before-marker and a date \<open>YYYY-MM-DD\<close>) nor the event rule (the
  text contains the event marker and a date \<open>YYYY.MM.DD\<close>): no later rule parses a text
  that holds a keyword, and these two rules return whatever else the text holds.
\<close>

theorem sentinel_substring_unresolved:
  "(strip s \<in> set sentinels \<longrightarrow> parse_date now (Str s) = Inr NaT) \<and>
   (k \<in> set sentinels \<longrightarrow> contains k s \<longrightarrow>
      (parse_date now (Str s) = Inr NaT \<longleftrightarrow>
        (\<not> contains kw_ijeon (strip s) \<or> re_search (date_pattern 45) (strip s) = None) \<and>
        (\<not> contains kw_haengsa (strip s) \<or> re_search (date_pattern 46) (strip s) = None)))"
proof (intro conjI impI)
  assume "strip s \<in> set sentinels"
  then show "parse_date now (Str s) = Inr NaT" by (simp add: parse_date_def)
next
  assume k: "k \<in> set sentinels" "contains k s"
  let ?free = "(\<not> contains kw_ijeon (strip s) \<or> re_search (date_pattern 45) (strip s) = None) \<and>
        (\<not> contains kw_haengsa (strip s) \<or> re_search (date_pattern 46) (strip s) = None)"
  show "parse_date now (Str s) = Inr NaT \<longleftrightarrow> ?free"
  proof
    assume ?free
    with k show "parse_date now (Str s) = Inr NaT"
      by (intro sentinel_substring_fall_through) simp_all
  next
    assume n: "parse_date now (Str s) = Inr NaT"
    show ?free
    proof (cases "strip s \<in> set sentinels")
      case True
      then show ?thesis using sentinel_no_marker by blast
    next
      case False
      show ?thesis
      proof (rule ccontr)
        assume "\<not> ?free"
        then have "(contains kw_ijeon (strip s) \<and> re_search (date_pattern 45) (strip s) \<noteq> None) \<or>
          (contains kw_haengsa (strip s) \<and> re_search (date_pattern 46) (strip s) \<noteq> None)"
          by blast
        from marker_rule_not_NaT [OF False this] n show False by simp
      qed
    qed
  qed
qed

text \<open>
  The first keyword between blanks is a sentinel; the first keyword followed by
  \<open>2024-03-15\<close> contains one, neither marker rule applies, and it is unresolved; the
  third keyword followed by the event marker and \<open>2024.03.15\<close> is not.
\<close>

theorem sentinel_substring_unresolved_witness:
  "parse_date 0 (Str (cps '' '' @ [0xC0AC, 0xC804, 0xADDC, 0xACA9] @ cps ''  '')) = Inr NaT \<and>
   parse_date 0 (Str ([0xC0AC, 0xC804, 0xADDC, 0xACA9] @ cps '' 2024-03-15'')) = Inr NaT \<and>
   contains [0xC2E4, 0xD589, 0xC911]
     ([0xC2E4, 0xD589, 0xC911] @ cps '' '' @ kw_haengsa @ cps '' 2024.03.15'') \<and>
   parse_date 0 (Str ([0xC2E4, 0xD589, 0xC911] @ cps '' '' @ kw_haengsa @ cps '' 2024.03.15''))
     \<noteq> Inr NaT"
  using
    sentinel_substring_unresolved [of "cps '' '' @ [0xC0AC, 0xC804, 0xADDC, 0xACA9] @ cps ''  ''" 0]
    sentinel_substring_unresolved [of "[0xC0AC, 0xC804, 0xADDC, 0xACA9] @ cps '' 2024-03-15''" 0
      "[0xC0AC, 0xC804, 0xADDC, 0xACA9]"]
    sentinel_substring_unresolved
      [of "[0xC2E4, 0xD589, 0xC911] @ cps '' '' @ kw_haengsa @ cps '' 2024.03.15''" 0
        "[0xC2E4, 0xD589, 0xC911]"]
  by (simp add: string_defs)

end
